theory Spec2Isabelle
  imports Main "HOL-Library.Multiset"
begin

section \<open>Errors\<close>

text \<open>
  The failures of the two source files, as values.
  \<^item> \<open>Underflow\<close>: the \<^verbatim>\<open>runtime_error\<close> thrown by \<^verbatim>\<open>pop\<close>, \<^verbatim>\<open>peek\<close>,
    \<^verbatim>\<open>dequeue\<close> and \<^verbatim>\<open>front\<close> on an empty container.
  \<^item> \<open>BadArrayNewLength\<close>: what \<^verbatim>\<open>new T[n]\<close> throws for a negative \<^verbatim>\<open>n\<close>.
  \<^item> \<open>OutOfBounds\<close>: an array access outside the allocated range (undefined behaviour in
    the C++ file, \<^verbatim>\<open>ArrayIndexOutOfBoundsException\<close> in the Java file).
  \<^item> \<open>Indeterminate\<close>: a read of a buffer slot that was allocated but never written.
  \<^item> \<open>InvalidPointer\<close>: a dereference of \<^verbatim>\<open>nullptr\<close> or of a deleted node.
  \<^item> \<open>NegativeArraySize\<close>: Java's exception for \<^verbatim>\<open>new int[n]\<close> with a negative \<^verbatim>\<open>n\<close>.
  \<^item> \<open>InvalidArgument\<close>: the error the specification names for a rejected capacity; no
    code path of the source raises it.
\<close>

datatype error =
  Underflow | BadArrayNewLength | OutOfBounds | Indeterminate | InvalidPointer
  | NegativeArraySize | InvalidArgument

section \<open>Stack: the array-backed LIFO container\<close>

text \<open>
  \<^verbatim>\<open>class Stack\<close> has the fields \<^verbatim>\<open>T* arr\<close>, \<^verbatim>\<open>int topIndex\<close> and
  \<^verbatim>\<open>int capacity\<close>. The buffer is a list of slots, as long as the allocation;
  \<open>None\<close> is a slot that \<^verbatim>\<open>new T[n]\<close> created and nothing has written yet. The field
  \<open>capacity\<close> is kept apart from the length of the buffer, as in the class.
  Every method returns its result together with the state it leaves, so that a throw
  shows the state the object is left in. Console output is not modelled.

  The two \<^verbatim>\<open>int\<close> fields are 32 bits wide. They are kept as integers, and every sum,
  difference and product the methods compute on them is reduced to the 32-bit range by
  \<open>int32\<close>, the two's-complement result. (Signed overflow is undefined in C++; the
  wrap-around is what the compiled program does, and it is what makes \<^verbatim>\<open>capacity *= 2\<close>
  negative from \<open>2^30\<close> on.)
\<close>

definition int32 :: "int \<Rightarrow> int" where
  "int32 x = (x + 2147483648) mod 4294967296 - 2147483648"

record 'a stack =
  arr :: "'a option list"
  topIndex :: int
  capacity :: int

text \<open>\<^verbatim>\<open>new T[n]\<close>: a buffer of \<open>n\<close> fresh slots, or the throw for a negative length.\<close>

definition new_array :: "int \<Rightarrow> error + 'a option list" where
  "new_array n = (if n < 0 then Inl BadArrayNewLength else Inr (replicate (nat n) None))"

text \<open>The constructor \<^verbatim>\<open>Stack(int size = 10)\<close>.\<close>

definition Stack :: "int \<Rightarrow> error + 'a stack" where
  "Stack sz =
     (case new_array sz of
        Inl e \<Rightarrow> Inl e
      | Inr a \<Rightarrow> Inr \<lparr>arr = a, topIndex = - 1, capacity = sz\<rparr>)"

definition Stack_default :: "error + 'a stack" where
  "Stack_default = Stack 10"

definition Stack_isEmpty :: "'a stack \<Rightarrow> bool" where
  "Stack_isEmpty s = (topIndex s = - 1)"

definition Stack_size :: "'a stack \<Rightarrow> int" where
  "Stack_size s = int32 (topIndex s + 1)"

text \<open>
  The copy loop of \<^verbatim>\<open>resize\<close>: \<^verbatim>\<open>for (i = 0; i <= topIndex; i++) newArr[i] = arr[i]\<close>.
  The counter is incremented only after an access inside \<open>newArr\<close>, whose length
  \<^verbatim>\<open>new T[capacity]\<close> took from an \<^verbatim>\<open>int\<close>, so \<open>i + 1\<close> stays in the 32-bit range.
\<close>

function resize_copy ::
  "int \<Rightarrow> int \<Rightarrow> 'a option list \<Rightarrow> 'a option list \<Rightarrow> error + 'a option list" where
  "resize_copy i ti old newArr =
     (if i \<le> ti then
        (if 0 \<le> i \<and> i < int (length old) \<and> i < int (length newArr)
         then resize_copy (i + 1) ti old (newArr[nat i := old ! nat i])
         else Inl OutOfBounds)
      else Inr newArr)"
  by pat_completeness auto
termination
  by (relation "measure (\<lambda>(i, ti, old, newArr). nat (ti + 1 - i))") auto

declare resize_copy.simps [simp del]

text \<open>
  \<^verbatim>\<open>resize\<close>: double \<open>capacity\<close> in 32 bits, allocate, copy the slots \<open>0..topIndex\<close>,
  swap the buffer in. The field \<open>capacity\<close> is assigned before \<^verbatim>\<open>new\<close> runs, so a throw of
  \<^verbatim>\<open>new\<close> leaves the doubled (and possibly wrapped) value in the object.
\<close>

definition Stack_resize :: "'a stack \<Rightarrow> (error + unit) \<times> 'a stack" where
  "Stack_resize s =
     (let s1 = s\<lparr>capacity := int32 (capacity s * 2)\<rparr> in
      case new_array (capacity s1) of
        Inl e \<Rightarrow> (Inl e, s1)
      | Inr newArr \<Rightarrow>
          (case resize_copy 0 (topIndex s1) (arr s1) newArr of
             Inl e \<Rightarrow> (Inl e, s1)
           | Inr filled \<Rightarrow> (Inr (), s1\<lparr>arr := filled\<rparr>)))"

text \<open>\<^verbatim>\<open>push\<close>: grow when \<open>topIndex = capacity - 1\<close>, then \<^verbatim>\<open>arr[++topIndex] = value\<close>.\<close>

definition Stack_push :: "'a \<Rightarrow> 'a stack \<Rightarrow> (error + unit) \<times> 'a stack" where
  "Stack_push v s =
     (case (if topIndex s = int32 (capacity s - 1) then Stack_resize s else (Inr (), s)) of
        (Inl e, s1) \<Rightarrow> (Inl e, s1)
      | (Inr _, s1) \<Rightarrow>
          (let s2 = s1\<lparr>topIndex := int32 (topIndex s1 + 1)\<rparr> in
           if 0 \<le> topIndex s2 \<and> topIndex s2 < int (length (arr s2))
           then (Inr (), s2\<lparr>arr := (arr s2)[nat (topIndex s2) := Some v]\<rparr>)
           else (Inl OutOfBounds, s2)))"

text \<open>\<^verbatim>\<open>pop\<close>: throw on the empty stack, else \<^verbatim>\<open>value = arr[topIndex--]\<close>.\<close>

definition Stack_pop :: "'a stack \<Rightarrow> (error + 'a) \<times> 'a stack" where
  "Stack_pop s =
     (if Stack_isEmpty s then (Inl Underflow, s)
      else if 0 \<le> topIndex s \<and> topIndex s < int (length (arr s)) then
        (case arr s ! nat (topIndex s) of
           None \<Rightarrow> (Inl Indeterminate, s)
         | Some v \<Rightarrow> (Inr v, s\<lparr>topIndex := int32 (topIndex s - 1)\<rparr>))
      else (Inl OutOfBounds, s))"

text \<open>\<^verbatim>\<open>peek\<close> is a \<^verbatim>\<open>const\<close> method: it returns a result and leaves the object alone.\<close>

definition Stack_peek :: "'a stack \<Rightarrow> error + 'a" where
  "Stack_peek s =
     (if Stack_isEmpty s then Inl Underflow
      else if 0 \<le> topIndex s \<and> topIndex s < int (length (arr s)) then
        (case arr s ! nat (topIndex s) of
           None \<Rightarrow> Inl Indeterminate
         | Some v \<Rightarrow> Inr v)
      else Inl OutOfBounds)"



section \<open>Queue: the linked FIFO container\<close>

text \<open>
  \<^verbatim>\<open>struct Node\<close> holds \<^verbatim>\<open>data\<close> and \<^verbatim>\<open>next\<close>; a pointer is an address or
  \<open>None\<close> for \<^verbatim>\<open>nullptr\<close>. The free store maps the addresses of the live nodes to
  their contents; \<^verbatim>\<open>delete\<close> removes an address from it. \<^verbatim>\<open>class Queue\<close> has the
  fields \<^verbatim>\<open>frontPtr\<close>, \<^verbatim>\<open>rearPtr\<close> and \<^verbatim>\<open>count\<close>; the object itself holds no
  value of type \<open>T\<close>, the nodes in the free store do. A method takes the free store
  together with the object and returns both. The field \<^verbatim>\<open>count\<close> is an \<^verbatim>\<open>int\<close> that
  moves by one per node; it is kept as an unbounded integer, which is exact as long as
  fewer than \<open>2^31\<close> nodes are live at once.
\<close>

type_synonym addr = nat

record 'a node =
  data :: 'a
  "next" :: "addr option"

type_synonym 'a heap = "addr \<rightharpoonup> 'a node"

record queue =
  frontPtr :: "addr option"
  rearPtr :: "addr option"
  count_q :: int

text \<open>The constructor \<^verbatim>\<open>Queue()\<close>.\<close>

definition Queue :: queue where
  "Queue = \<lparr>frontPtr = None, rearPtr = None, count_q = 0\<rparr>"

definition Queue_isEmpty :: "queue \<Rightarrow> bool" where
  "Queue_isEmpty q = (frontPtr q = None)"

definition Queue_size :: "queue \<Rightarrow> int" where
  "Queue_size q = count_q q"

text \<open>
  \<^verbatim>\<open>enqueue\<close>. The address \<open>p\<close> is the one \<^verbatim>\<open>new Node<T>(value)\<close> returns; the
  allocator's contract is that \<open>p\<close> is not the address of a live node.
\<close>

definition Queue_enqueue ::
  "addr \<Rightarrow> 'a \<Rightarrow> 'a heap \<times> queue \<Rightarrow> (error + unit) \<times> 'a heap \<times> queue" where
  "Queue_enqueue p v hq =
     (case hq of (h, q) \<Rightarrow>
        (let h1 = h(p \<mapsto> \<lparr>data = v, next = None\<rparr>) in
         if Queue_isEmpty q then
           (Inr (), h1, q\<lparr>frontPtr := Some p, rearPtr := Some p, count_q := count_q q + 1\<rparr>)
         else
           (case rearPtr q of
              None \<Rightarrow> (Inl InvalidPointer, h1, q)
            | Some r \<Rightarrow>
                (case h1 r of
                   None \<Rightarrow> (Inl InvalidPointer, h1, q)
                 | Some nd \<Rightarrow>
                     (Inr (), h1(r \<mapsto> nd\<lparr>next := Some p\<rparr>),
                      q\<lparr>rearPtr := Some p, count_q := count_q q + 1\<rparr>)))))"

text \<open>
  \<^verbatim>\<open>dequeue\<close>: throw on the empty queue; else read the front node, advance
  \<open>frontPtr\<close>, clear \<open>rearPtr\<close> when the chain is exhausted, delete the node, decrement
  \<open>count\<close>.
\<close>

definition Queue_dequeue ::
  "'a heap \<times> queue \<Rightarrow> (error + 'a) \<times> 'a heap \<times> queue" where
  "Queue_dequeue hq =
     (case hq of (h, q) \<Rightarrow>
        if Queue_isEmpty q then (Inl Underflow, h, q)
        else
          (case frontPtr q of
             None \<Rightarrow> (Inl InvalidPointer, h, q)
           | Some temp \<Rightarrow>
               (case h temp of
                  None \<Rightarrow> (Inl InvalidPointer, h, q)
                | Some nd \<Rightarrow>
                    (let q1 = q\<lparr>frontPtr := next nd\<rparr>;
                         q2 = (if frontPtr q1 = None then q1\<lparr>rearPtr := None\<rparr> else q1)
                     in (Inr (data nd), h(temp := None), q2\<lparr>count_q := count_q q2 - 1\<rparr>)))))"

text \<open>\<^verbatim>\<open>front\<close> is a \<^verbatim>\<open>const\<close> method.\<close>

definition Queue_front :: "'a heap \<times> queue \<Rightarrow> error + 'a" where
  "Queue_front hq =
     (case hq of (h, q) \<Rightarrow>
        if Queue_isEmpty q then Inl Underflow
        else
          (case frontPtr q of
             None \<Rightarrow> Inl InvalidPointer
           | Some f \<Rightarrow>
               (case h f of
                  None \<Rightarrow> Inl InvalidPointer
                | Some nd \<Rightarrow> Inr (data nd))))"

text \<open>
  A run of enqueues, each with the address its allocation returns, and a run of \<open>n\<close>
  dequeues that collects the values in the order they are returned.
\<close>

fun enqueue_all ::
  "(addr \<times> 'a) list \<Rightarrow> 'a heap \<times> queue \<Rightarrow> (error + unit) \<times> 'a heap \<times> queue" where
  "enqueue_all [] hq = (Inr (), hq)"
| "enqueue_all ((p, v) # es) hq =
     (case Queue_enqueue p v hq of
        (Inl e, hq1) \<Rightarrow> (Inl e, hq1)
      | (Inr _, hq1) \<Rightarrow> enqueue_all es hq1)"

fun dequeue_n ::
  "nat \<Rightarrow> 'a heap \<times> queue \<Rightarrow> (error + 'a list) \<times> 'a heap \<times> queue" where
  "dequeue_n 0 hq = (Inr [], hq)"
| "dequeue_n (Suc n) hq =
     (case Queue_dequeue hq of
        (Inl e, hq1) \<Rightarrow> (Inl e, hq1)
      | (Inr v, hq1) \<Rightarrow>
          (case dequeue_n n hq1 of
             (Inl e, hq2) \<Rightarrow> (Inl e, hq2)
           | (Inr vs, hq2) \<Rightarrow> (Inr (v # vs), hq2)))"

text \<open>
  The states a queue can be in: freshly created in any free store, then any enqueue whose
  allocation returns a fresh address, and any dequeue, failed ones included.
\<close>

inductive queue_reach :: "'a heap \<times> queue \<Rightarrow> bool" where
  q_created: "queue_reach (h, Queue)"
| q_enqueued:
    "queue_reach (h, q) \<Longrightarrow> p \<notin> dom h \<Longrightarrow> Queue_enqueue p v (h, q) = (r, hq') \<Longrightarrow>
     queue_reach hq'"
| q_dequeued:
    "queue_reach (h, q) \<Longrightarrow> Queue_dequeue (h, q) = (r, hq') \<Longrightarrow> queue_reach hq'"


section \<open>Sorting and searching: the array algorithms\<close>

text \<open>
  The Java file works on \<^verbatim>\<open>int[]\<close>. An array is a list; an index is an \<open>int\<close>, as in the
  source, where \<^verbatim>\<open>j\<close> runs down to \<open>-1\<close> in insertion sort and \<^verbatim>\<open>i\<close> starts at
  \<^verbatim>\<open>low - 1\<close> in the partition. Every array access is checked: outside
  \<open>0..length - 1\<close> it is the error \<open>OutOfBounds\<close>. Indices stay between \<open>-1\<close> and the
  array's length, so no index computation leaves the range of a 32-bit \<^verbatim>\<open>int\<close>.

  The sorts only copy elements and compare them. The model compares two elements through a
  key function \<open>f\<close>: the Java code is the instance where the elements are \<open>int\<close> and \<open>f\<close>
  is the identity. With a key, elements that compare equal can still be told apart, which is
  what stability speaks about.
\<close>

text \<open>Java's integer division truncates towards zero.\<close>

definition java_div :: "int \<Rightarrow> int \<Rightarrow> int" where
  "java_div x y = sgn x * sgn y * (\<bar>x\<bar> div \<bar>y\<bar>)"

text \<open>\<^verbatim>\<open>swap(arr, i, j)\<close>: \<^verbatim>\<open>temp = arr[i]; arr[i] = arr[j]; arr[j] = temp\<close>.\<close>

definition swap :: "'a list \<Rightarrow> int \<Rightarrow> int \<Rightarrow> error + 'a list" where
  "swap a i j =
     (if 0 \<le> i \<and> i < int (length a) \<and> 0 \<le> j \<and> j < int (length a) then
        (let temp = a ! nat i;
             a1 = a[nat i := a ! nat j]
         in Inr (a1[nat j := temp]))
      else Inl OutOfBounds)"

lemma swap_length: "swap a i j = Inr a' \<Longrightarrow> length a' = length a"
  by (auto simp: swap_def Let_def split: if_splits)

subsection \<open>Bubble sort\<close>

text \<open>
  The inner loop \<^verbatim>\<open>for (j = 0; j < arr.length - 1 - i; j++)\<close>, from the current \<open>j\<close>, with
  the flag \<^verbatim>\<open>swapped\<close>.
\<close>

function bubble_inner ::
  "('a \<Rightarrow> 'k::linorder) \<Rightarrow> int \<Rightarrow> int \<Rightarrow> 'a list \<Rightarrow> bool \<Rightarrow> error + 'a list \<times> bool" where
  "bubble_inner f i j a swapped =
     (if j < int (length a) - 1 - i then
        (if 0 \<le> j \<and> j + 1 < int (length a) then
           (if f (a ! nat j) > f (a ! nat (j + 1)) then
              (case swap a j (j + 1) of
                 Inl e \<Rightarrow> Inl e
               | Inr a' \<Rightarrow> bubble_inner f i (j + 1) a' True)
            else bubble_inner f i (j + 1) a swapped)
         else Inl OutOfBounds)
      else Inr (a, swapped))"
  by pat_completeness auto
termination
  by (relation "measure (\<lambda>(f, i, j, a, swapped). nat (int (length a) - 1 - i - j))")
    (auto dest: swap_length)

declare bubble_inner.simps [simp del]

lemma bubble_inner_length:
  "bubble_inner f i j a swapped = Inr (a', swapped') \<Longrightarrow> length a' = length a"
proof (induction f i j a swapped rule: bubble_inner.induct)
  case (1 f i j a swapped)
  show ?case
  proof (cases "j < int (length a) - 1 - i")
    case False
    with "1.prems" show ?thesis by (subst (asm) bubble_inner.simps) simp
  next
    case True
    from "1.prems" True have rng: "0 \<le> j \<and> j + 1 < int (length a)"
      by (subst (asm) bubble_inner.simps) (simp split: if_splits)
    show ?thesis
    proof (cases "f (a ! nat j) > f (a ! nat (j + 1))")
      case gt: True
      from "1.prems" True rng gt obtain a1 where
        a1: "swap a j (j + 1) = Inr a1" "bubble_inner f i (j + 1) a1 True = Inr (a', swapped')"
        by (subst (asm) bubble_inner.simps) (simp split: sum.splits)
      from "1.IH"(1) [OF True rng gt a1(1) a1(2)] swap_length [OF a1(1)] show ?thesis by simp
    next
      case le: False
      from "1.prems" True rng le have "bubble_inner f i (j + 1) a swapped = Inr (a', swapped')"
        by (subst (asm) bubble_inner.simps) simp
      from "1.IH"(2) [OF True rng le this] show ?thesis .
    qed
  qed
qed

text \<open>
  The outer loop \<^verbatim>\<open>for (i = 0; i < arr.length - 1; i++)\<close>, with the
  \<^verbatim>\<open>if (!swapped) break\<close>.
\<close>

function bubble_outer :: "('a \<Rightarrow> 'k::linorder) \<Rightarrow> int \<Rightarrow> 'a list \<Rightarrow> error + 'a list" where
  "bubble_outer f i a =
     (if i < int (length a) - 1 then
        (case bubble_inner f i 0 a False of
           Inl e \<Rightarrow> Inl e
         | Inr (a', swapped) \<Rightarrow> if \<not> swapped then Inr a' else bubble_outer f (i + 1) a')
      else Inr a)"
  by pat_completeness auto
termination
  by (relation "measure (\<lambda>(f, i, a). nat (int (length a) - 1 - i))")
    (auto dest: bubble_inner_length)

declare bubble_outer.simps [simp del]

definition bubbleSort :: "('a \<Rightarrow> 'k::linorder) \<Rightarrow> 'a list \<Rightarrow> error + 'a list" where
  "bubbleSort f a = bubble_outer f 0 a"

subsection \<open>Selection sort\<close>

text \<open>
  The inner loop \<^verbatim>\<open>for (j = i + 1; j < arr.length; j++)\<close>, which leaves the index of the
  minimum in \<^verbatim>\<open>minIdx\<close>.
\<close>

function selection_inner ::
  "('a \<Rightarrow> 'k::linorder) \<Rightarrow> int \<Rightarrow> int \<Rightarrow> 'a list \<Rightarrow> error + int" where
  "selection_inner f j minIdx a =
     (if j < int (length a) then
        (if 0 \<le> j \<and> 0 \<le> minIdx \<and> minIdx < int (length a) then
           selection_inner f (j + 1) (if f (a ! nat j) < f (a ! nat minIdx) then j else minIdx) a
         else Inl OutOfBounds)
      else Inr minIdx)"
  by pat_completeness auto
termination
  by (relation "measure (\<lambda>(f, j, minIdx, a). nat (int (length a) - j))") auto

declare selection_inner.simps [simp del]

function selection_outer :: "('a \<Rightarrow> 'k::linorder) \<Rightarrow> int \<Rightarrow> 'a list \<Rightarrow> error + 'a list" where
  "selection_outer f i a =
     (if i < int (length a) - 1 then
        (case selection_inner f (i + 1) i a of
           Inl e \<Rightarrow> Inl e
         | Inr minIdx \<Rightarrow>
             (case swap a i minIdx of
                Inl e \<Rightarrow> Inl e
              | Inr a' \<Rightarrow> selection_outer f (i + 1) a'))
      else Inr a)"
  by pat_completeness auto
termination
  by (relation "measure (\<lambda>(f, i, a). nat (int (length a) - 1 - i))")
    (auto dest: swap_length)

declare selection_outer.simps [simp del]

definition selectionSort :: "('a \<Rightarrow> 'k::linorder) \<Rightarrow> 'a list \<Rightarrow> error + 'a list" where
  "selectionSort f a = selection_outer f 0 a"

subsection \<open>Insertion sort\<close>

text \<open>
  The inner loop \<^verbatim>\<open>while (j >= 0 && arr[j] > key) { arr[j + 1] = arr[j]; j--; }\<close>; it
  returns the array and the final \<open>j\<close>.
\<close>

function insertion_shift ::
  "('a \<Rightarrow> 'k::linorder) \<Rightarrow> 'a \<Rightarrow> int \<Rightarrow> 'a list \<Rightarrow> error + 'a list \<times> int" where
  "insertion_shift f key j a =
     (if 0 \<le> j then
        (if j < int (length a) then
           (if f (a ! nat j) > f key then
              (if j + 1 < int (length a)
               then insertion_shift f key (j - 1) (a[nat (j + 1) := a ! nat j])
               else Inl OutOfBounds)
            else Inr (a, j))
         else Inl OutOfBounds)
      else Inr (a, j))"
  by pat_completeness auto
termination
  by (relation "measure (\<lambda>(f, key, j, a). nat (j + 1))") auto

declare insertion_shift.simps [simp del]

lemma insertion_shift_length:
  "insertion_shift f key j a = Inr (a', j') \<Longrightarrow> length a' = length a"
proof (induction f key j a rule: insertion_shift.induct)
  case (1 f key j a)
  show ?case
  proof (cases "0 \<le> j \<and> j < int (length a) \<and> f (a ! nat j) > f key")
    case False
    with "1.prems" show ?thesis
      by (subst (asm) insertion_shift.simps) (auto split: if_splits)
  next
    case True
    with "1.prems" have rng: "j + 1 < int (length a)"
      and rec: "insertion_shift f key (j - 1) (a[nat (j + 1) := a ! nat j]) = Inr (a', j')"
      by (subst (asm) insertion_shift.simps, simp split: if_splits)+
    from "1.IH" [OF _ _ _ rng rec] True show ?thesis by simp
  qed
qed

text \<open>The outer loop \<^verbatim>\<open>for (i = 1; i < arr.length; i++)\<close>.\<close>

function insertion_outer :: "('a \<Rightarrow> 'k::linorder) \<Rightarrow> int \<Rightarrow> 'a list \<Rightarrow> error + 'a list" where
  "insertion_outer f i a =
     (if i < int (length a) then
        (if 0 \<le> i then
           (let key = a ! nat i in
            case insertion_shift f key (i - 1) a of
              Inl e \<Rightarrow> Inl e
            | Inr (a', j) \<Rightarrow>
                if 0 \<le> j + 1 \<and> j + 1 < int (length a')
                then insertion_outer f (i + 1) (a'[nat (j + 1) := key])
                else Inl OutOfBounds)
         else Inl OutOfBounds)
      else Inr a)"
  by pat_completeness auto
termination
  by (relation "measure (\<lambda>(f, i, a). nat (int (length a) - i))")
    (auto dest: insertion_shift_length)

declare insertion_outer.simps [simp del]

definition insertionSort :: "('a \<Rightarrow> 'k::linorder) \<Rightarrow> 'a list \<Rightarrow> error + 'a list" where
  "insertionSort f a = insertion_outer f 1 a"

subsection \<open>Merge sort\<close>

text \<open>
  \<^verbatim>\<open>new int[n]\<close> followed by the loop \<^verbatim>\<open>for (i = 0; i < n; i++) T[i] = arr[start + i]\<close>
  that fills it. Every slot of the temporary is written before it is read, so the model
  builds the temporary slot by slot, \<open>t\<close> holding the \<open>i\<close> slots written so far.
\<close>

function copy_range :: "'a list \<Rightarrow> int \<Rightarrow> int \<Rightarrow> int \<Rightarrow> 'a list \<Rightarrow> error + 'a list" where
  "copy_range a start n i t =
     (if i < n then
        (if 0 \<le> start + i \<and> start + i < int (length a)
         then copy_range a start n (i + 1) (t @ [a ! nat (start + i)])
         else Inl OutOfBounds)
      else Inr t)"
  by pat_completeness auto
termination
  by (relation "measure (\<lambda>(a, start, n, i, t). nat (n - i))") auto

declare copy_range.simps [simp del]

text \<open>
  The first loop of \<^verbatim>\<open>merge\<close>:
  \<^verbatim>\<open>while (i < n1 && j < n2) { if (L[i] <= R[j]) arr[k++] = L[i++]; else arr[k++] = R[j++]; }\<close>.
\<close>

function merge_loop ::
  "('a \<Rightarrow> 'k::linorder) \<Rightarrow> 'a list \<Rightarrow> 'a list \<Rightarrow> int \<Rightarrow> int \<Rightarrow> int \<Rightarrow> int \<Rightarrow> int \<Rightarrow> 'a list
     \<Rightarrow> error + 'a list \<times> int \<times> int \<times> int" where
  "merge_loop f L R n1 n2 i j k a =
     (if i < n1 \<and> j < n2 then
        (if 0 \<le> i \<and> i < int (length L) \<and> 0 \<le> j \<and> j < int (length R) \<and>
            0 \<le> k \<and> k < int (length a) then
           (if f (L ! nat i) \<le> f (R ! nat j)
            then merge_loop f L R n1 n2 (i + 1) j (k + 1) (a[nat k := L ! nat i])
            else merge_loop f L R n1 n2 i (j + 1) (k + 1) (a[nat k := R ! nat j]))
         else Inl OutOfBounds)
      else Inr (a, i, j, k))"
  by pat_completeness auto
termination
  by (relation "measure (\<lambda>(f, L, R, n1, n2, i, j, k, a). nat (n1 - i) + nat (n2 - j))") auto

declare merge_loop.simps [simp del]

text \<open>The two tail loops: \<^verbatim>\<open>while (i < n) arr[k++] = T[i++]\<close>.\<close>

function drain :: "'a list \<Rightarrow> int \<Rightarrow> int \<Rightarrow> int \<Rightarrow> 'a list \<Rightarrow> error + 'a list \<times> int" where
  "drain t n i k a =
     (if i < n then
        (if 0 \<le> i \<and> i < int (length t) \<and> 0 \<le> k \<and> k < int (length a)
         then drain t n (i + 1) (k + 1) (a[nat k := t ! nat i])
         else Inl OutOfBounds)
      else Inr (a, k))"
  by pat_completeness auto
termination
  by (relation "measure (\<lambda>(t, n, i, k, a). nat (n - i))") auto

declare drain.simps [simp del]

definition merge ::
  "('a \<Rightarrow> 'k::linorder) \<Rightarrow> 'a list \<Rightarrow> int \<Rightarrow> int \<Rightarrow> int \<Rightarrow> error + 'a list" where
  "merge f a left mid right =
     (let n1 = mid - left + 1;
          n2 = right - mid
      in if n1 < 0 \<or> n2 < 0 then Inl NegativeArraySize
         else
           (case copy_range a left n1 0 [] of
              Inl e \<Rightarrow> Inl e
            | Inr L \<Rightarrow>
                (case copy_range a (mid + 1) n2 0 [] of
                   Inl e \<Rightarrow> Inl e
                 | Inr R \<Rightarrow>
                     (case merge_loop f L R n1 n2 0 0 left a of
                        Inl e \<Rightarrow> Inl e
                      | Inr (a1, i, j, k) \<Rightarrow>
                          (case drain L n1 i k a1 of
                             Inl e \<Rightarrow> Inl e
                           | Inr (a2, k2) \<Rightarrow>
                               (case drain R n2 j k2 a2 of
                                  Inl e \<Rightarrow> Inl e
                                | Inr (a3, k3) \<Rightarrow> Inr a3))))))"

lemma java_div_2: "0 \<le> x \<Longrightarrow> java_div x 2 = x div 2"
  by (cases "x = 0") (simp_all add: java_div_def)

text \<open>The recursive \<^verbatim>\<open>mergeSort(arr, left, right)\<close>.\<close>

function mergeSort_rec ::
  "('a \<Rightarrow> 'k::linorder) \<Rightarrow> 'a list \<Rightarrow> int \<Rightarrow> int \<Rightarrow> error + 'a list" where
  "mergeSort_rec f a left right =
     (if left \<ge> right then Inr a
      else
        (let mid = left + java_div (right - left) 2 in
         case mergeSort_rec f a left mid of
           Inl e \<Rightarrow> Inl e
         | Inr a1 \<Rightarrow>
             (case mergeSort_rec f a1 (mid + 1) right of
                Inl e \<Rightarrow> Inl e
              | Inr a2 \<Rightarrow> merge f a2 left mid right)))"
  by pat_completeness auto
termination
  by (relation "measure (\<lambda>(f, a, left, right). nat (right - left))")
    (auto simp: java_div_2)

declare mergeSort_rec.simps [simp del]

definition mergeSort :: "('a \<Rightarrow> 'k::linorder) \<Rightarrow> 'a list \<Rightarrow> error + 'a list" where
  "mergeSort f a =
     (if int (length a) \<le> 1 then Inr a else mergeSort_rec f a 0 (int (length a) - 1))"

subsection \<open>Quick sort\<close>

text \<open>
  The loop of \<^verbatim>\<open>partition\<close>:
  \<^verbatim>\<open>for (j = low; j < high; j++) if (arr[j] <= pivot) { i++; swap(arr, i, j); }\<close>. It
  returns the array and the final \<open>i\<close>.
\<close>

function partition_loop ::
  "('a \<Rightarrow> 'k::linorder) \<Rightarrow> 'a \<Rightarrow> int \<Rightarrow> int \<Rightarrow> int \<Rightarrow> 'a list \<Rightarrow> error + 'a list \<times> int" where
  "partition_loop f pivot i j high a =
     (if j < high then
        (if 0 \<le> j \<and> j < int (length a) then
           (if f (a ! nat j) \<le> f pivot then
              (case swap a (i + 1) j of
                 Inl e \<Rightarrow> Inl e
               | Inr a' \<Rightarrow> partition_loop f pivot (i + 1) (j + 1) high a')
            else partition_loop f pivot i (j + 1) high a)
         else Inl OutOfBounds)
      else Inr (a, i))"
  by pat_completeness auto
termination
  by (relation "measure (\<lambda>(f, pivot, i, j, high, a). nat (high - j))") auto

declare partition_loop.simps [simp del]

definition partition ::
  "('a \<Rightarrow> 'k::linorder) \<Rightarrow> 'a list \<Rightarrow> int \<Rightarrow> int \<Rightarrow> error + 'a list \<times> int" where
  "partition f a low high =
     (if 0 \<le> high \<and> high < int (length a) then
        (let pivot = a ! nat high in
         case partition_loop f pivot (low - 1) low high a of
           Inl e \<Rightarrow> Inl e
         | Inr (a1, i) \<Rightarrow>
             (case swap a1 (i + 1) high of
                Inl e \<Rightarrow> Inl e
              | Inr a2 \<Rightarrow> Inr (a2, i + 1)))
      else Inl OutOfBounds)"

lemma partition_loop_bounds:
  "partition_loop f pivot i j high a = Inr (a', i') \<Longrightarrow> j \<le> high \<Longrightarrow>
   i \<le> i' \<and> i' - i \<le> high - j"
proof (induction f pivot i j high a rule: partition_loop.induct)
  case (1 f pivot i j high a)
  show ?case
  proof (cases "j < high")
    case False
    with "1.prems" show ?thesis by (subst (asm) partition_loop.simps) simp
  next
    case True
    from "1.prems"(1) True have rng: "0 \<le> j \<and> j < int (length a)"
      by (subst (asm) partition_loop.simps) (simp split: if_splits)
    show ?thesis
    proof (cases "f (a ! nat j) \<le> f pivot")
      case le: True
      from "1.prems"(1) True rng le obtain a1 where
        a1: "swap a (i + 1) j = Inr a1" "partition_loop f pivot (i + 1) (j + 1) high a1 = Inr (a', i')"
        by (subst (asm) partition_loop.simps) (simp split: sum.splits)
      from "1.IH"(1) [OF True rng le a1(1) a1(2)] True show ?thesis by simp
    next
      case gt: False
      from "1.prems"(1) True rng gt have
        "partition_loop f pivot i (j + 1) high a = Inr (a', i')"
        by (subst (asm) partition_loop.simps) simp
      from "1.IH"(2) [OF True rng gt this] True show ?thesis by simp
    qed
  qed
qed

lemma partition_bounds:
  "partition f a low high = Inr (a', p) \<Longrightarrow> low \<le> high \<Longrightarrow> low \<le> p \<and> p \<le> high"
  by (auto simp: partition_def Let_def split: if_splits sum.splits
      dest!: partition_loop_bounds)

text \<open>The recursive \<^verbatim>\<open>quickSort(arr, low, high)\<close>.\<close>

function quickSort_rec ::
  "('a \<Rightarrow> 'k::linorder) \<Rightarrow> 'a list \<Rightarrow> int \<Rightarrow> int \<Rightarrow> error + 'a list" where
  "quickSort_rec f a low high =
     (if low < high then
        (case partition f a low high of
           Inl e \<Rightarrow> Inl e
         | Inr (a1, p) \<Rightarrow>
             (case quickSort_rec f a1 low (p - 1) of
                Inl e \<Rightarrow> Inl e
              | Inr a2 \<Rightarrow> quickSort_rec f a2 (p + 1) high))
      else Inr a)"
  by pat_completeness auto
termination
  by (relation "measure (\<lambda>(f, a, low, high). nat (high - low))")
    (auto dest!: partition_bounds)

declare quickSort_rec.simps [simp del]

definition quickSort :: "('a \<Rightarrow> 'k::linorder) \<Rightarrow> 'a list \<Rightarrow> error + 'a list" where
  "quickSort f a = quickSort_rec f a 0 (int (length a) - 1)"

subsection \<open>Searching\<close>

text \<open>
  The searches take \<^verbatim>\<open>int[]\<close> and an \<^verbatim>\<open>int\<close> target and return an index, or \<open>-1\<close> for
  "not found". The elements are only compared, so they are modelled by \<open>int\<close>.
\<close>

function linear_loop :: "int list \<Rightarrow> int \<Rightarrow> int \<Rightarrow> error + int" where
  "linear_loop a target i =
     (if i < int (length a) then
        (if 0 \<le> i then
           (if a ! nat i = target then Inr i else linear_loop a target (i + 1))
         else Inl OutOfBounds)
      else Inr (- 1))"
  by pat_completeness auto
termination
  by (relation "measure (\<lambda>(a, target, i). nat (int (length a) - i))") auto

declare linear_loop.simps [simp del]

definition linearSearch :: "int list \<Rightarrow> int \<Rightarrow> error + int" where
  "linearSearch a target = linear_loop a target 0"

function binary_loop :: "int list \<Rightarrow> int \<Rightarrow> int \<Rightarrow> int \<Rightarrow> error + int" where
  "binary_loop a target left right =
     (if left \<le> right then
        (let mid = left + java_div (right - left) 2 in
         if 0 \<le> mid \<and> mid < int (length a) then
           (if a ! nat mid = target then Inr mid
            else if a ! nat mid < target then binary_loop a target (mid + 1) right
            else binary_loop a target left (mid - 1))
         else Inl OutOfBounds)
      else Inr (- 1))"
  by pat_completeness auto
termination
  by (relation "measure (\<lambda>(a, target, left, right). nat (right - left + 1))")
    (auto simp: java_div_2)

declare binary_loop.simps [simp del]

definition binarySearch :: "int list \<Rightarrow> int \<Rightarrow> error + int" where
  "binarySearch a target = binary_loop a target 0 (int (length a) - 1)"

section \<open>Stack: invariant and laws\<close>

subsection \<open>The representation invariant of the stack\<close>





























subsection \<open>The stack's claims\<close>











text \<open>
  C9 (construction), as the code has it. The constructor validates nothing, so no capacity
  is rejected with \<open>InvalidArgument\<close>. Every capacity \<open>n \<ge> 0\<close>, the default 10
  included, yields an empty stack of size 0, with \<open>capacity = n\<close> and a buffer of \<open>n\<close>
  slots; a negative capacity fails in the allocation of the buffer.
\<close>

theorem Stack_create:
  "(Stack n :: error + 'a stack) \<noteq> Inl InvalidArgument \<and>
   (0 \<le> n \<longrightarrow> (\<exists>s :: 'a stack. Stack n = Inr s \<and> Stack_isEmpty s \<and> Stack_size s = 0 \<and>
       capacity s = n \<and> length (arr s) = nat n)) \<and>
   (n < 0 \<longrightarrow> (Stack n :: error + 'a stack) = Inl BadArrayNewLength) \<and>
   (\<exists>s :: 'a stack. Stack_default = Inr s \<and> Stack_isEmpty s \<and> Stack_size s = 0 \<and> capacity s = 10)"
  by (simp add: Stack_def Stack_default_def new_array_def Stack_isEmpty_def Stack_size_def
      int32_def)


theorem Stack_create_witness:
  "(\<exists>s :: int stack. Stack 5 = Inr s \<and> Stack_isEmpty s \<and> Stack_size s = 0 \<and> capacity s = 5 \<and>
      length (arr s) = 5) \<and>
   (Stack (- 3) :: error + int stack) = Inl BadArrayNewLength"
  using Stack_create [of 5, where ?'a = int] Stack_create [of "- 3", where ?'a = int] by simp


text \<open>
  The claim as the specification words it fails at capacity 0: the constructor returns an
  empty stack of capacity 0 instead of failing.
\<close>

theorem Stack_create_counterexample:
  "(Stack 0 :: error + int stack) = Inr \<lparr>arr = [], topIndex = - 1, capacity = 0\<rparr> \<and>
   (Stack 0 :: error + int stack) \<noteq> Inl InvalidArgument"
  by (simp add: Stack_def new_array_def)


text \<open>
  What the capacity-0 stack is good for: doubling 0 leaves 0, so the first push writes past
  the end of an empty buffer. This is why the stack's laws are stated for capacities of at
  least 1.
\<close>

lemma Stack_zero_push_overruns:
  "(Stack 0 :: error + int stack) = Inr \<lparr>arr = [], topIndex = - 1, capacity = 0\<rparr> \<and>
   Stack_push (1::int) \<lparr>arr = [], topIndex = - 1, capacity = 0\<rparr>
     = (Inl OutOfBounds, \<lparr>arr = [], topIndex = 0, capacity = 0\<rparr>)"
proof -
  have "resize_copy 0 (- 1) ([] :: int option list) [] = Inr []"
    by (subst resize_copy.simps) simp
  then show ?thesis
    by (simp add: Stack_def new_array_def Stack_push_def Stack_resize_def Let_def int32_def)
qed

section \<open>Queue: invariant and laws\<close>

subsection \<open>The representation invariant of the queue\<close>

text \<open>
  The node chain: from the pointer \<open>p\<close> the \<^verbatim>\<open>next\<close> links run through live nodes at the
  addresses and with the values of \<open>xs\<close>, in order, and end in \<^verbatim>\<open>nullptr\<close>.
\<close>

fun chain :: "'a heap \<Rightarrow> addr option \<Rightarrow> (addr \<times> 'a) list \<Rightarrow> bool" where
  "chain h p [] = (p = None)"
| "chain h p ((a, v) # rest) =
     (p = Some a \<and> (\<exists>nd. h a = Some nd \<and> data nd = v \<and> chain h (next nd) rest))"

text \<open>
  The representation invariant: the queue holds the values of \<open>xs\<close>, front first, in a
  chain of distinct nodes from \<open>frontPtr\<close>; \<open>count\<close> is the number of nodes and
  \<open>rearPtr\<close> is the last node, or \<^verbatim>\<open>nullptr\<close> when there is none.
\<close>

definition queue_holds :: "'a heap \<times> queue \<Rightarrow> (addr \<times> 'a) list \<Rightarrow> bool" where
  "queue_holds hq xs = (case hq of (h, q) \<Rightarrow>
     chain h (frontPtr q) xs \<and> distinct (map fst xs) \<and> count_q q = int (length xs) \<and>
     rearPtr q = (if xs = [] then None else Some (fst (last xs))))"

lemma chain_dom: "chain h p xs \<Longrightarrow> fst ` set xs \<subseteq> dom h"
  by (induction xs arbitrary: p) fastforce+

lemma chain_upd_other:
  "a \<notin> fst ` set xs \<Longrightarrow> chain (h(a := x)) p xs = chain h p xs"
  by (induction xs arbitrary: p) auto

lemma chain_snoc:
  assumes "chain h p (xs @ [(r, w)])" "distinct (map fst (xs @ [(r, w)]))"
    "p' \<notin> dom h" "h r = Some nd"
  shows "chain (h(p' \<mapsto> \<lparr>data = v, next = None\<rparr>, r \<mapsto> nd\<lparr>next := Some p'\<rparr>)) p
           (xs @ [(r, w), (p', v)])"
  using assms
proof (induction xs arbitrary: p)
  case Nil
  then show ?case by auto
next
  case (Cons x xs)
  obtain a u where x: "x = (a, u)" by (cases x)
  with Cons.prems have ar: "a \<noteq> r" and ap: "a \<noteq> p'" by auto
  from Cons.prems x obtain na where na: "p = Some a" "h a = Some na" "data na = u"
    "chain h (next na) (xs @ [(r, w)])" by auto
  from Cons.prems have "distinct (map fst (xs @ [(r, w)]))" by simp
  from Cons.IH [OF na(4) this Cons.prems(3,4)]
  have "chain (h(p' \<mapsto> \<lparr>data = v, next = None\<rparr>, r \<mapsto> nd\<lparr>next := Some p'\<rparr>)) (next na)
           (xs @ [(r, w), (p', v)])" .
  moreover have "(h(p' \<mapsto> \<lparr>data = v, next = None\<rparr>, r \<mapsto> nd\<lparr>next := Some p'\<rparr>)) a = Some na"
    using na ar ap by simp
  ultimately show ?case unfolding x append_Cons chain.simps using na(1,3) by blast
qed


lemma queue_holds_created: "queue_holds (h, Queue) []"
  by (simp add: queue_holds_def Queue_def)

lemma queue_holds_enqueue:
  assumes "queue_holds (h, q) xs" "p \<notin> dom h"
  shows "\<exists>hq'. Queue_enqueue p v (h, q) = (Inr (), hq') \<and> queue_holds hq' (xs @ [(p, v)]) \<and>
           dom (fst hq') = insert p (dom h)"
proof (cases xs rule: rev_cases)
  case Nil
  with assms show ?thesis
    by (auto simp: queue_holds_def Queue_enqueue_def Queue_isEmpty_def)
next
  case (snoc ys y)
  obtain r w where y: "y = (r, w)" by (cases y)
  from assms snoc y have ch: "chain h (frontPtr q) (ys @ [(r, w)])"
    and di: "distinct (map fst (ys @ [(r, w)]))" and rear: "rearPtr q = Some r"
    and cnt: "count_q q = int (length xs)"
    by (auto simp: queue_holds_def)
  from ch obtain f where ne: "frontPtr q = Some f" by (cases ys) auto
  from chain_dom [OF ch] have rd: "r \<in> dom h" and sub: "fst ` set (ys @ [(r, w)]) \<subseteq> dom h" by auto
  then obtain nd where nd: "h r = Some nd" by auto
  from rd assms(2) have rp: "r \<noteq> p" by auto
  from sub assms(2) have pn: "p \<notin> fst ` set (ys @ [(r, w)])" by auto
  let ?h2 = "h(p \<mapsto> \<lparr>data = v, next = None\<rparr>, r \<mapsto> nd\<lparr>next := Some p\<rparr>)"
  let ?q2 = "q\<lparr>rearPtr := Some p, count_q := count_q q + 1\<rparr>"
  have "Queue_enqueue p v (h, q) = (Inr (), ?h2, ?q2)"
    using ne rear nd rp by (simp add: Queue_enqueue_def Queue_isEmpty_def Let_def)
  moreover have "chain ?h2 (frontPtr ?q2) (ys @ [(r, w), (p, v)])"
    using chain_snoc [OF ch di assms(2) nd, of v] by simp
  moreover have "distinct (map fst (ys @ [(r, w), (p, v)]))"
    using di pn by auto
  moreover have "dom ?h2 = insert p (dom h)" using rd by auto
  ultimately show ?thesis using snoc y cnt by (simp add: queue_holds_def)
qed

lemma queue_holds_dequeue:
  assumes "queue_holds (h, q) ((a, v) # xs)"
  shows "\<exists>hq'. Queue_dequeue (h, q) = (Inr v, hq') \<and> queue_holds hq' xs \<and> fst hq' = h(a := None)"
proof -
  from assms obtain nd where f: "frontPtr q = Some a" and nd: "h a = Some nd" "data nd = v"
    and ch: "chain h (next nd) xs" and di: "distinct (map fst xs)" and an: "a \<notin> fst ` set xs"
    and cnt: "count_q q = int (length xs) + 1"
    and rear: "rearPtr q = Some (fst (last ((a, v) # xs)))"
    by (auto simp: queue_holds_def)
  have ch': "chain (h(a := None)) (next nd) xs" using ch an by (simp add: chain_upd_other)
  show ?thesis
  proof (cases xs)
    case Nil
    with ch have "next nd = None" by simp
    with f nd Nil cnt show ?thesis
      by (simp add: Queue_dequeue_def Queue_isEmpty_def queue_holds_def Let_def)
  next
    case (Cons y ys)
    with ch obtain b where "next nd = Some b" by (cases y) auto
    with f nd Cons cnt ch' di rear show ?thesis
      by (simp add: Queue_dequeue_def Queue_isEmpty_def queue_holds_def Let_def)
  qed
qed

lemma queue_holds_empty_iff: "queue_holds (h, q) xs \<Longrightarrow> Queue_isEmpty q \<longleftrightarrow> xs = []"
  by (cases xs) (auto simp: queue_holds_def Queue_isEmpty_def)

lemma dequeue_empty: "Queue_isEmpty q \<Longrightarrow> Queue_dequeue (h, q) = (Inl Underflow, h, q)"
  by (simp add: Queue_dequeue_def)

lemma queue_reach_queue_holds: "queue_reach hq \<Longrightarrow> \<exists>xs. queue_holds hq xs"
proof (induction rule: queue_reach.induct)
  case (q_created h)
  then show ?case using queue_holds_created by blast
next
  case (q_enqueued h q p v r hq')
  then obtain xs where "queue_holds (h, q) xs" by blast
  from queue_holds_enqueue [OF this q_enqueued.hyps(2), of v] q_enqueued.hyps(3) show ?case by auto
next
  case (q_dequeued h q r hq')
  then obtain xs where xs: "queue_holds (h, q) xs" by blast
  show ?case
  proof (cases xs)
    case Nil
    with xs queue_holds_empty_iff [OF xs] dequeue_empty [of q h] q_dequeued.hyps(2) show ?thesis by auto
  next
    case (Cons y ys)
    obtain a v where "y = (a, v)" by (cases y)
    with Cons xs queue_holds_dequeue [of h q a v ys] q_dequeued.hyps(2) show ?thesis by auto
  qed
qed

lemma enqueue_all_queue_holds:
  "queue_holds hq xs \<Longrightarrow> distinct (map fst es) \<Longrightarrow> fst ` set es \<inter> dom (fst hq) = {} \<Longrightarrow>
   \<exists>hq'. enqueue_all es hq = (Inr (), hq') \<and> queue_holds hq' (xs @ es)"
proof (induction es arbitrary: hq xs)
  case Nil
  then show ?case by simp
next
  case (Cons e es)
  obtain p v where e: "e = (p, v)" by (cases e)
  obtain h q where hq: "hq = (h, q)" by (cases hq)
  from Cons.prems e hq have fresh: "p \<notin> dom h" by auto
  from queue_holds_enqueue [OF Cons.prems(1) [unfolded hq] fresh, of v]
  obtain hq1 where hq1: "Queue_enqueue p v (h, q) = (Inr (), hq1)" "queue_holds hq1 (xs @ [(p, v)])"
    "dom (fst hq1) = insert p (dom h)" by blast
  have "distinct (map fst es)" using Cons.prems(2) by simp
  moreover have "fst ` set es \<inter> dom (fst hq1) = {}"
    using Cons.prems(2,3) e hq hq1(3) by auto
  ultimately obtain hq' where "enqueue_all es hq1 = (Inr (), hq')" "queue_holds hq' ((xs @ [(p, v)]) @ es)"
    using Cons.IH [OF hq1(2)] by blast
  with hq1(1) e hq show ?case by simp
qed

lemma dequeue_n_queue_holds:
  "queue_holds hq (xs @ ys) \<Longrightarrow>
   \<exists>hq'. dequeue_n (length xs) hq = (Inr (map snd xs), hq') \<and> queue_holds hq' ys"
proof (induction xs arbitrary: hq)
  case Nil
  then show ?case by simp
next
  case (Cons x xs)
  obtain a v where x: "x = (a, v)" by (cases x)
  obtain h q where hq: "hq = (h, q)" by (cases hq)
  from Cons.prems x hq have "queue_holds (h, q) ((a, v) # (xs @ ys))" by simp
  from queue_holds_dequeue [OF this]
  obtain hq1 where hq1: "Queue_dequeue (h, q) = (Inr v, hq1)" "queue_holds hq1 (xs @ ys)" by blast
  from Cons.IH [OF hq1(2)] obtain hq' where
    "dequeue_n (length xs) hq1 = (Inr (map snd xs), hq')" "queue_holds hq' ys" by blast
  with hq1(1) x hq show ?case by simp
qed


subsection \<open>The queue's claims\<close>

text \<open>
  C2 (FIFO law). On a freshly created queue, in any free store, any list of enqueues
  succeeds provided each allocation returns a fresh address (the addresses are distinct and
  not live before), and the same number of dequeues then all succeed and return the values in
  the order they were enqueued; the queue is empty afterwards, with size 0.
\<close>

theorem Queue_FIFO:
  "distinct (map fst es) \<Longrightarrow> fst ` set es \<inter> dom h0 = {} \<Longrightarrow>
   \<exists>hq1 hq2. enqueue_all es (h0, Queue) = (Inr (), hq1) \<and>
      dequeue_n (length es) hq1 = (Inr (map snd es), hq2) \<and>
      Queue_isEmpty (snd hq2) \<and> Queue_size (snd hq2) = 0"
proof -
  assume d: "distinct (map fst es)" and f: "fst ` set es \<inter> dom h0 = {}"
  have "queue_holds (h0, Queue) []" by (rule queue_holds_created)
  from enqueue_all_queue_holds [OF this d] f
  obtain hq1 where hq1: "enqueue_all es (h0, Queue) = (Inr (), hq1)" "queue_holds hq1 ([] @ es)"
    by auto
  from dequeue_n_queue_holds [of hq1 es "[]"] hq1(2)
  obtain hq2 where hq2: "dequeue_n (length es) hq1 = (Inr (map snd es), hq2)" "queue_holds hq2 []"
    by auto
  from hq2(2) have "Queue_isEmpty (snd hq2) \<and> Queue_size (snd hq2) = 0"
    by (cases hq2) (simp add: queue_holds_def Queue_isEmpty_def Queue_size_def)
  with hq1(1) hq2(1) show ?thesis by blast
qed


theorem Queue_FIFO_witness:
  "\<exists>hq1 hq2. enqueue_all [(7, 100 :: int), (3, 200), (9, 300)] (Map.empty, Queue) = (Inr (), hq1) \<and>
      dequeue_n (length [(7 :: addr, 100 :: int), (3, 200), (9, 300)]) hq1
        = (Inr (map snd [(7 :: addr, 100 :: int), (3, 200), (9, 300)]), hq2) \<and>
      Queue_isEmpty (snd hq2) \<and> Queue_size (snd hq2) = 0"
proof -
  have d: "distinct (map fst [(7 :: addr, 100 :: int), (3, 200), (9, 300)])" by simp
  have f: "fst ` set [(7 :: addr, 100 :: int), (3, 200), (9, 300)] \<inter> dom (Map.empty :: int heap) = {}"
    by simp
  show ?thesis by (rule Queue_FIFO [OF d f])
qed





text \<open>
  C4 (underflow, with the state left alone). On an empty stack \<^verbatim>\<open>pop\<close> and \<^verbatim>\<open>peek\<close> fail
  with \<open>Underflow\<close>, and on an empty queue \<^verbatim>\<open>dequeue\<close> and \<^verbatim>\<open>front\<close> do; the failed call
  returns the state it was given, so the size is 0 before and after and the same call fails
  in the same way again. For the queue, emptiness is \<open>frontPtr = nullptr\<close> and the size is
  the field \<open>count\<close>, which is 0 on every empty queue that the operations can reach.
\<close>

theorem Underflow_atomic:
  "(Stack_isEmpty s \<longrightarrow>
      Stack_pop s = (Inl Underflow, s) \<and> Stack_peek s = Inl Underflow \<and>
      Stack_size s = 0 \<and> Stack_size (snd (Stack_pop s)) = 0 \<and>
      Stack_pop (snd (Stack_pop s)) = (Inl Underflow, s)) \<and>
   (Queue_isEmpty q \<longrightarrow>
      Queue_dequeue (h, q) = (Inl Underflow, h, q) \<and> Queue_front (h, q) = Inl Underflow \<and>
      Queue_dequeue (snd (Queue_dequeue (h, q))) = (Inl Underflow, h, q)) \<and>
   (queue_reach (h, q) \<and> Queue_isEmpty q \<longrightarrow>
      Queue_size q = 0 \<and> Queue_size (snd (snd (Queue_dequeue (h, q)))) = 0)"
proof (intro conjI impI)
  assume e: "Stack_isEmpty s"
  then show p: "Stack_pop s = (Inl Underflow, s)" by (simp add: Stack_pop_def)
  from e show "Stack_peek s = Inl Underflow" by (simp add: Stack_peek_def)
  from e show z: "Stack_size s = 0" by (simp add: Stack_size_def Stack_isEmpty_def int32_def)
  from p z show "Stack_size (snd (Stack_pop s)) = 0" by simp
  from p show "Stack_pop (snd (Stack_pop s)) = (Inl Underflow, s)" by simp
next
  assume e: "Queue_isEmpty q"
  then show d: "Queue_dequeue (h, q) = (Inl Underflow, h, q)" by (simp add: Queue_dequeue_def)
  from e show "Queue_front (h, q) = Inl Underflow" by (simp add: Queue_front_def)
  from d show "Queue_dequeue (snd (Queue_dequeue (h, q))) = (Inl Underflow, h, q)" by simp
next
  assume a: "queue_reach (h, q) \<and> Queue_isEmpty q"
  then obtain xs where xs: "queue_holds (h, q) xs" using queue_reach_queue_holds by blast
  with a have "xs = []" using queue_holds_empty_iff by blast
  with xs show z: "Queue_size q = 0" by (simp add: queue_holds_def Queue_size_def)
  from a have "Queue_dequeue (h, q) = (Inl Underflow, h, q)" by (simp add: Queue_dequeue_def)
  with z show "Queue_size (snd (snd (Queue_dequeue (h, q)))) = 0" by simp
qed


theorem Underflow_atomic_witness:
  "Stack_pop \<lparr>arr = [None, None :: int option], topIndex = - 1, capacity = 2\<rparr>
     = (Inl Underflow, \<lparr>arr = [None, None], topIndex = - 1, capacity = 2\<rparr>) \<and>
   Stack_peek \<lparr>arr = [None, None :: int option], topIndex = - 1, capacity = 2\<rparr> = Inl Underflow \<and>
   Stack_size \<lparr>arr = [None, None :: int option], topIndex = - 1, capacity = 2\<rparr> = 0 \<and>
   Queue_dequeue (Map.empty :: int heap, Queue) = (Inl Underflow, Map.empty, Queue) \<and>
   Queue_front (Map.empty :: int heap, Queue) = Inl Underflow \<and>
   Queue_size Queue = 0"
proof -
  let ?s = "\<lparr>arr = [None, None :: int option], topIndex = - 1, capacity = 2\<rparr>"
  have e: "Stack_isEmpty ?s" by (simp add: Stack_isEmpty_def)
  have qe: "Queue_isEmpty Queue" by (simp add: Queue_isEmpty_def Queue_def)
  have qr: "queue_reach (Map.empty :: int heap, Queue)" by (rule q_created)
  note u = Underflow_atomic [of ?s Queue "Map.empty :: int heap"]
  from u [THEN conjunct1, rule_format, OF e]
       u [THEN conjunct2, THEN conjunct1, rule_format, OF qe]
       u [THEN conjunct2, THEN conjunct2, rule_format, OF conjI [OF qr qe]]
  show ?thesis by (elim conjE) (intro conjI; assumption)
qed

section \<open>Sorting: correctness of the five algorithms\<close>

subsection \<open>Order among equal keys\<close>

text \<open>
  Two arrays hold, for every key, the same elements with that key in the same order. A sort
  is stable when its output is related to its input in this way.
\<close>

definition stable_rel :: "('a \<Rightarrow> 'k) \<Rightarrow> 'a list \<Rightarrow> 'a list \<Rightarrow> bool" where
  "stable_rel f xs ys = (\<forall>k. filter (\<lambda>y. f y = k) xs = filter (\<lambda>y. f y = k) ys)"

lemma stable_rel_refl [simp]: "stable_rel f xs xs"
  by (simp add: stable_rel_def)

lemma stable_rel_trans: "stable_rel f xs ys \<Longrightarrow> stable_rel f ys zs \<Longrightarrow> stable_rel f xs zs"
  by (simp add: stable_rel_def)

lemma stable_rel_mset: "stable_rel f xs ys \<Longrightarrow> mset xs = mset ys"
proof (rule multiset_eqI)
  fix x
  assume s: "stable_rel f xs ys"
  have "count (mset xs) x = count (mset (filter (\<lambda>y. f y = f x) xs)) x" by simp
  also have "\<dots> = count (mset (filter (\<lambda>y. f y = f x) ys)) x"
    using s by (simp only: stable_rel_def)
  also have "\<dots> = count (mset ys) x" by simp
  finally show "count (mset xs) x = count (mset ys) x" .
qed

lemma stable_rel_append:
  "stable_rel f xs xs' \<Longrightarrow> stable_rel f ys ys' \<Longrightarrow> stable_rel f (xs @ ys) (xs' @ ys')"
  by (simp add: stable_rel_def)

lemma split_at_two:
  assumes "Suc j < length a"
  shows "a = take j a @ a ! j # a ! Suc j # drop (Suc (Suc j)) a"
proof -
  have "drop j a = a ! j # drop (Suc j) a" using assms by (simp add: Cons_nth_drop_Suc)
  moreover have "drop (Suc j) a = a ! Suc j # drop (Suc (Suc j)) a"
    using assms by (simp add: Cons_nth_drop_Suc)
  ultimately show ?thesis by (metis append_take_drop_id)
qed

lemma adjacent_swap_conv:
  assumes "Suc j < length a"
  shows "a[j := a ! Suc j, Suc j := a ! j] = take j a @ a ! Suc j # a ! j # drop (Suc (Suc j)) a"
proof -
  let ?P = "take j a" and ?Q = "drop (Suc (Suc j)) a"
  have len: "length ?P = j" using assms by simp
  have "a[j := a ! Suc j, Suc j := a ! j]
      = (?P @ a ! j # a ! Suc j # ?Q)[j := a ! Suc j, Suc j := a ! j]"
    using split_at_two [OF assms] by simp
  also have "\<dots> = ?P @ a ! Suc j # a ! j # ?Q"
    using len by (simp add: list_update_append)
  finally show ?thesis .
qed

lemma stable_rel_adjacent_swap:
  assumes "Suc j < length a" "f (a ! j) \<noteq> f (a ! Suc j)"
  shows "stable_rel f (a[j := a ! Suc j, Suc j := a ! j]) a"
proof -
  have "stable_rel f (take j a @ a ! Suc j # a ! j # drop (Suc (Suc j)) a)
          (take j a @ a ! j # a ! Suc j # drop (Suc (Suc j)) a)"
    using assms(2) by (auto simp: stable_rel_def)
  then show ?thesis
    using adjacent_swap_conv [OF assms(1)] split_at_two [OF assms(1)] by simp
qed

lemma swap_nat:
  "i < length a \<Longrightarrow> j < length a \<Longrightarrow>
   swap a (int i) (int j) = Inr (a[i := a ! j, j := a ! i])"
  by (simp add: swap_def Let_def)

lemma sorted_stable_eq_sort_key:
  assumes "sorted (map f ys)" "stable_rel f ys xs"
  shows "ys = sort_key f xs"
proof -
  have "sort_key f xs = ys"
  proof (rule properties_for_sort_key)
    show "mset ys = mset xs" using assms(2) by (rule stable_rel_mset)
    show "sorted (map f ys)" by fact
  next
    fix k assume "k \<in> set ys"
    have "(\<lambda>x. f k = f x) = (\<lambda>x. f x = f k)" by auto
    then show "filter (\<lambda>x. f k = f x) ys = filter (\<lambda>x. f k = f x) xs"
      using assms(2) by (simp add: stable_rel_def)
  qed
  then show ?thesis by simp
qed

subsection \<open>Bubble sort\<close>

lemma bubble_inner_correct:
  assumes "j \<le> m" "m < length a" "int m = int (length a) - 1 - i"
  shows "\<exists>a' sw'. bubble_inner f i (int j) a sw = Inr (a', sw') \<and>
      length a' = length a \<and> stable_rel f a' a \<and>
      drop (Suc m) a' = drop (Suc m) a \<and>
      ((\<forall>x \<in> set (take j a). f x \<le> f (a ! j)) \<longrightarrow> (\<forall>x \<in> set (take m a'). f x \<le> f (a' ! m))) \<and>
      (\<not> sw' \<longrightarrow> \<not> sw \<and> a' = a \<and> (\<forall>k. j \<le> k \<and> k < m \<longrightarrow> f (a ! k) \<le> f (a ! Suc k)))"
  using assms
proof (induction "m - j" arbitrary: j a sw)
  case 0
  then have "j = m" by simp
  with 0 have "bubble_inner f i (int j) a sw = Inr (a, sw)"
    by (subst bubble_inner.simps) simp
  with \<open>j = m\<close> show ?case by auto
next
  case (Suc d)
  then have jm: "j < m" and sj: "Suc j < length a" by simp_all
  have cond: "int j < int (length a) - 1 - i" using jm Suc.prems(3) by simp
  have rng: "0 \<le> int j \<and> int j + 1 < int (length a)" using sj by simp
  have n1: "nat (int j) = j" and n2: "nat (int j + 1) = Suc j" by simp_all
  have ij: "int j + 1 = int (Suc j)" by simp
  show ?case
  proof (cases "f (a ! j) > f (a ! Suc j)")
    case True
    let ?a1 = "a[j := a ! Suc j, Suc j := a ! j]"
    have sw1: "swap a (int j) (int j + 1) = Inr ?a1"
      unfolding ij using sj by (intro swap_nat) simp_all
    have "bubble_inner f i (int j) a sw = bubble_inner f i (int j + 1) ?a1 True"
      using cond rng True sw1 by (subst bubble_inner.simps) (simp add: n2)
    then have unf: "bubble_inner f i (int j) a sw = bubble_inner f i (int (Suc j)) ?a1 True"
      by (simp only: ij)
    have d: "d = m - Suc j" using Suc.hyps(2) by simp
    have l1: "length ?a1 = length a" by simp
    from Suc.hyps(1) [OF d, of ?a1 True] jm Suc.prems(2,3) l1
    obtain a' sw' where r: "bubble_inner f i (int (Suc j)) ?a1 True = Inr (a', sw')"
      "length a' = length ?a1" "stable_rel f a' ?a1"
      "drop (Suc m) a' = drop (Suc m) ?a1"
      "(\<forall>x \<in> set (take (Suc j) ?a1). f x \<le> f (?a1 ! Suc j)) \<longrightarrow> (\<forall>x \<in> set (take m a'). f x \<le> f (a' ! m))"
      "\<not> sw' \<longrightarrow> \<not> True \<and> a' = ?a1 \<and> (\<forall>k. Suc j \<le> k \<and> k < m \<longrightarrow> f (?a1 ! k) \<le> f (?a1 ! Suc k))"
      by (metis Suc_leI)
    have st: "stable_rel f a' a"
      using r(3) stable_rel_adjacent_swap [OF sj, of f] True
      by (auto intro: stable_rel_trans)
    have dr: "drop (Suc m) a' = drop (Suc m) a" using r(4) jm by simp
    have tk: "take (Suc j) ?a1 = take j a @ [a ! Suc j]"
      using adjacent_swap_conv [OF sj] sj by simp
    have nth1: "?a1 ! Suc j = a ! j" using sj by simp
    have imp: "(\<forall>x \<in> set (take j a). f x \<le> f (a ! j)) \<longrightarrow> (\<forall>x \<in> set (take m a'). f x \<le> f (a' ! m))"
    proof
      assume h: "\<forall>x \<in> set (take j a). f x \<le> f (a ! j)"
      have "\<forall>x \<in> set (take (Suc j) ?a1). f x \<le> f (?a1 ! Suc j)"
        unfolding tk nth1 using h True by auto
      with r(5) show "\<forall>x \<in> set (take m a'). f x \<le> f (a' ! m)" by blast
    qed
    from r(6) have "sw'" by blast
    then have ns: "\<not> sw' \<longrightarrow> \<not> sw \<and> a' = a \<and> (\<forall>k. j \<le> k \<and> k < m \<longrightarrow> f (a ! k) \<le> f (a ! Suc k))"
      by simp
    have res: "bubble_inner f i (int j) a sw = Inr (a', sw')" using unf r(1) by simp
    have len: "length a' = length a" using r(2) by simp
    from res len st dr imp ns show ?thesis by blast
  next
    case False
    have "bubble_inner f i (int j) a sw = bubble_inner f i (int j + 1) a sw"
      using cond rng False by (subst bubble_inner.simps) (simp add: n2)
    then have unf: "bubble_inner f i (int j) a sw = bubble_inner f i (int (Suc j)) a sw"
      by (simp only: ij)
    have d: "d = m - Suc j" using Suc.hyps(2) by simp
    from Suc.hyps(1) [OF d, of a sw] jm Suc.prems(2,3)
    obtain a' sw' where r: "bubble_inner f i (int (Suc j)) a sw = Inr (a', sw')"
      "length a' = length a" "stable_rel f a' a"
      "drop (Suc m) a' = drop (Suc m) a"
      "(\<forall>x \<in> set (take (Suc j) a). f x \<le> f (a ! Suc j)) \<longrightarrow> (\<forall>x \<in> set (take m a'). f x \<le> f (a' ! m))"
      "\<not> sw' \<longrightarrow> \<not> sw \<and> a' = a \<and> (\<forall>k. Suc j \<le> k \<and> k < m \<longrightarrow> f (a ! k) \<le> f (a ! Suc k))"
      by (metis Suc_leI)
    have tk: "take (Suc j) a = take j a @ [a ! j]"
      using sj by (simp add: take_Suc_conv_app_nth)
    have imp: "(\<forall>x \<in> set (take j a). f x \<le> f (a ! j)) \<longrightarrow> (\<forall>x \<in> set (take m a'). f x \<le> f (a' ! m))"
    proof
      assume h: "\<forall>x \<in> set (take j a). f x \<le> f (a ! j)"
      have "\<forall>x \<in> set (take (Suc j) a). f x \<le> f (a ! Suc j)"
        unfolding tk using h False by (auto intro: order_trans)
      with r(5) show "\<forall>x \<in> set (take m a'). f x \<le> f (a' ! m)" by blast
    qed
    have ns: "\<not> sw' \<longrightarrow> \<not> sw \<and> a' = a \<and> (\<forall>k. j \<le> k \<and> k < m \<longrightarrow> f (a ! k) \<le> f (a ! Suc k))"
    proof
      assume "\<not> sw'"
      with r(6) have x: "\<not> sw" "a' = a" "\<forall>k. Suc j \<le> k \<and> k < m \<longrightarrow> f (a ! k) \<le> f (a ! Suc k)"
        by blast+
      have "\<forall>k. j \<le> k \<and> k < m \<longrightarrow> f (a ! k) \<le> f (a ! Suc k)"
      proof (intro allI impI)
        fix k assume k: "j \<le> k \<and> k < m"
        show "f (a ! k) \<le> f (a ! Suc k)"
        proof (cases "k = j")
          case True with False show ?thesis by simp
        next
          case False with k x(3) show ?thesis by simp
        qed
      qed
      with x show "\<not> sw \<and> a' = a \<and> (\<forall>k. j \<le> k \<and> k < m \<longrightarrow> f (a ! k) \<le> f (a ! Suc k))" by simp
    qed
    have res: "bubble_inner f i (int j) a sw = Inr (a', sw')" using unf r(1) by simp
    from res r(2,3,4) imp ns show ?thesis by blast
  qed
qed

lemma sorted_map_split:
  assumes "sorted (map f (take k a))" "sorted (map f (drop k a))"
    "\<forall>x \<in> set (take k a). \<forall>y \<in> set (drop k a). f x \<le> f y"
  shows "sorted (map f a)"
proof -
  have "sorted (map f (take k a) @ map f (drop k a))"
    using assms by (simp add: sorted_append)
  then show ?thesis by (simp flip: map_append)
qed

lemma sorted_take_adjacent:
  assumes "\<forall>k < m. f (a ! k) \<le> f (a ! Suc k)" "m < length a"
  shows "sorted (map f (take (Suc m) a))"
  unfolding sorted_iff_nth_Suc using assms by auto

lemma stable_rel_set: "stable_rel f xs ys \<Longrightarrow> set xs = set ys"
  by (metis stable_rel_mset set_mset_mset)

lemma bubble_outer_correct:
  assumes "sorted (map f (drop (length a - i) a))"
    "\<forall>x \<in> set (take (length a - i) a). \<forall>y \<in> set (drop (length a - i) a). f x \<le> f y"
  shows "\<exists>a'. bubble_outer f (int i) a = Inr a' \<and> sorted (map f a') \<and> stable_rel f a' a"
  using assms
proof (induction "length a - 1 - i" arbitrary: i a)
  case 0
  then have stop: "\<not> int i < int (length a) - 1" by simp
  then have res: "bubble_outer f (int i) a = Inr a" by (subst bubble_outer.simps) simp
  from 0 have "length (take (length a - i) a) \<le> 1" by simp
  then have "sorted (map f (take (length a - i) a))"
    by (metis length_map sorted01)
  with 0 have "sorted (map f a)" by (intro sorted_map_split [of f "length a - i" a]) simp_all
  with res show ?case by simp
next
  case (Suc d)
  define m where "m = length a - 1 - i"
  have m: "0 < m" "m < length a" "int m = int (length a) - 1 - int i" "Suc m = length a - i"
    using Suc.hyps(2) by (simp_all add: m_def)
  have go: "int i < int (length a) - 1" using Suc.hyps(2) by simp
  from bubble_inner_correct [of 0 m a "int i" f False] m
  obtain a' sw' where r: "bubble_inner f (int i) 0 a False = Inr (a', sw')"
    "length a' = length a" "stable_rel f a' a" "drop (Suc m) a' = drop (Suc m) a"
    "\<forall>x \<in> set (take m a'). f x \<le> f (a' ! m)"
    "\<not> sw' \<longrightarrow> a' = a \<and> (\<forall>k. k < m \<longrightarrow> f (a ! k) \<le> f (a ! Suc k))"
    by auto
  show ?case
  proof (cases sw')
    case False
    with r(6) have eq: "a' = a" and adj: "\<forall>k < m. f (a ! k) \<le> f (a ! Suc k)" by simp_all
    have res: "bubble_outer f (int i) a = Inr a"
      using go r(1) False eq by (subst bubble_outer.simps) simp
    have "sorted (map f (take (Suc m) a))" using adj m(2) by (rule sorted_take_adjacent)
    with Suc.prems m(4) have "sorted (map f a)"
      by (intro sorted_map_split [of f "length a - i" a]) simp_all
    with res show ?thesis by simp
  next
    case True
    have unf: "bubble_outer f (int i) a = bubble_outer f (int (Suc i)) a'"
      using go r(1) True by (subst bubble_outer.simps) (simp add: add.commute)
    have la: "length a' - Suc i = m" using r(2) by (simp add: m_def)
    have msp: "mset (take (Suc m) a') + mset (drop (Suc m) a') = mset (take (Suc m) a) + mset (drop (Suc m) a)"
      using stable_rel_mset [OF r(3)] by (metis append_take_drop_id mset_append)
    then have "mset (take (Suc m) a') = mset (take (Suc m) a)" using r(4) by simp
    then have sets: "set (take (Suc m) a') = set (take (Suc m) a)" by (metis set_mset_mset)
    have dm: "drop m a' = a' ! m # drop (Suc m) a" 
      using r(4) m(2) r(2) by (metis Cons_nth_drop_Suc)
    have in_pre: "a' ! m \<in> set (take (Suc m) a)"
      using sets m(2) r(2) by (metis in_set_conv_nth length_take lessI min_less_iff_conj nth_take)
    have big: "\<forall>y \<in> set (drop (Suc m) a). f (a' ! m) \<le> f y"
      using Suc.prems(2) in_pre m(4) by simp
    have s1: "sorted (map f (drop (length a' - Suc i) a'))"
      unfolding la dm using big Suc.prems(1) m(4) by simp
    have s2: "\<forall>x \<in> set (take (length a' - Suc i) a'). \<forall>y \<in> set (drop (length a' - Suc i) a'). f x \<le> f y"
      unfolding la dm
    proof (intro ballI)
      fix x y assume x: "x \<in> set (take m a')" and y: "y \<in> set (a' ! m # drop (Suc m) a)"
      from x have "x \<in> set (take (Suc m) a')"
        using set_take_subset_set_take [of m "Suc m" a'] by auto
      then have xa: "x \<in> set (take (Suc m) a)" using sets by simp
      from y consider "y = a' ! m" | "y \<in> set (drop (Suc m) a)" by auto
      then show "f x \<le> f y"
      proof cases
        case 1 with r(5) x show ?thesis by simp
      next
        case 2
        with xa Suc.prems(2) m(4) show ?thesis by simp
      qed
    qed
    have d: "d = length a' - 1 - Suc i" using Suc.hyps(2) r(2) by simp
    from Suc.hyps(1) [OF d s1 s2]
    obtain a'' where "bubble_outer f (int (Suc i)) a' = Inr a''" "sorted (map f a'')"
      "stable_rel f a'' a'" by blast
    with unf r(3) show ?thesis by (auto intro: stable_rel_trans)
  qed
qed

lemma bubbleSort_correct:
  "\<exists>a'. bubbleSort f a = Inr a' \<and> sorted (map f a') \<and> stable_rel f a' a"
  using bubble_outer_correct [of f a 0] by (simp add: bubbleSort_def)

subsection \<open>Selection sort\<close>

lemma selection_inner_correct:
  assumes "lo \<le> mi" "mi < j" "j \<le> length a"
    "\<forall>k. lo \<le> k \<and> k < j \<longrightarrow> f (a ! mi) \<le> f (a ! k)"
  shows "\<exists>r. selection_inner f (int j) (int mi) a = Inr (int r) \<and> lo \<le> r \<and> r < length a \<and>
      (\<forall>k. lo \<le> k \<and> k < length a \<longrightarrow> f (a ! r) \<le> f (a ! k))"
  using assms
proof (induction "length a - j" arbitrary: j mi)
  case 0
  then have "j = length a" by simp
  with 0 have "selection_inner f (int j) (int mi) a = Inr (int mi)"
    by (subst selection_inner.simps) simp
  with 0 \<open>j = length a\<close> show ?case by auto
next
  case (Suc d)
  then have jl: "j < length a" by simp
  define mi' where "mi' = (if f (a ! j) < f (a ! mi) then j else mi)"
  have "selection_inner f (int j) (int mi) a
      = selection_inner f (int j + 1) (if f (a ! j) < f (a ! mi) then int j else int mi) a"
    using jl Suc.prems by (subst selection_inner.simps) simp
  also have "(if f (a ! j) < f (a ! mi) then int j else int mi) = int mi'"
    by (simp add: mi'_def)
  also have "int j + 1 = int (Suc j)" by simp
  finally have unf: "selection_inner f (int j) (int mi) a = selection_inner f (int (Suc j)) (int mi') a" .
  have d: "d = length a - Suc j" using Suc.hyps(2) by simp
  have p1: "lo \<le> mi'" using Suc.prems by (simp add: mi'_def)
  have p2: "mi' < Suc j" using Suc.prems by (simp add: mi'_def)
  have p3: "Suc j \<le> length a" using jl by simp
  have p4: "\<forall>k. lo \<le> k \<and> k < Suc j \<longrightarrow> f (a ! mi') \<le> f (a ! k)"
  proof (intro allI impI)
    fix k assume k: "lo \<le> k \<and> k < Suc j"
    show "f (a ! mi') \<le> f (a ! k)"
    proof (cases "k = j")
      case True then show ?thesis by (simp add: mi'_def not_less)
    next
      case False
      with k have "f (a ! mi) \<le> f (a ! k)" using Suc.prems(4) by simp
      then show ?thesis by (auto simp: mi'_def)
    qed
  qed
  from Suc.hyps(1) [OF d p1 p2 p3 p4] unf show ?case by simp
qed

lemma swap_le_facts:
  assumes "i \<le> r" "r < length a"
  shows "take i (a[i := a ! r, r := a ! i]) = take i a"
    and "(a[i := a ! r, r := a ! i]) ! i = a ! r"
    and "mset (drop i (a[i := a ! r, r := a ! i])) = mset (drop i a)"
proof -
  let ?a1 = "a[i := a ! r, r := a ! i]"
  show t: "take i ?a1 = take i a" using assms by simp
  show "?a1 ! i = a ! r" using assms by (cases "i = r") simp_all
  have "mset ?a1 = mset a" using assms mset_swap [of r a i] by simp
  then have "mset (take i ?a1) + mset (drop i ?a1) = mset (take i a) + mset (drop i a)"
    by (metis append_take_drop_id mset_append)
  with t show "mset (drop i ?a1) = mset (drop i a)" by simp
qed

lemma selection_outer_correct:
  assumes "sorted (map f (take i a))"
    "\<forall>x \<in> set (take i a). \<forall>y \<in> set (drop i a). f x \<le> f y"
  shows "\<exists>a'. selection_outer f (int i) a = Inr a' \<and> sorted (map f a') \<and> mset a' = mset a"
  using assms
proof (induction "length a - 1 - i" arbitrary: i a)
  case 0
  then have res: "selection_outer f (int i) a = Inr a"
    by (subst selection_outer.simps) simp
  from 0 have "length (drop i a) \<le> 1" by simp
  then have "sorted (map f (drop i a))" by (metis length_map sorted01)
  with 0 have "sorted (map f a)" by (intro sorted_map_split [of f i a]) simp_all
  with res show ?case by simp
next
  case (Suc d)
  then have il: "Suc i < length a" by simp
  have p3: "Suc i \<le> length a" using il by simp
  have p4: "\<forall>k. i \<le> k \<and> k < Suc i \<longrightarrow> f (a ! i) \<le> f (a ! k)"
    by (auto simp: less_Suc_eq_le)
  from selection_inner_correct [OF le_refl lessI p3 p4]
  obtain r where r: "selection_inner f (int (Suc i)) (int i) a = Inr (int r)" "i \<le> r"
    "r < length a" "\<forall>k. i \<le> k \<and> k < length a \<longrightarrow> f (a ! r) \<le> f (a ! k)"
    by blast
  let ?a1 = "a[i := a ! r, r := a ! i]"
  have sw: "swap a (int i) (int r) = Inr ?a1" using il r(3) by (intro swap_nat) simp_all
  have ij: "int (Suc i) = int i + 1" by simp
  have r1: "selection_inner f (int i + 1) (int i) a = Inr (int r)" using r(1) by (simp only: ij)
  have go: "int i < int (length a) - 1" using il by simp
  have "selection_outer f (int i) a = selection_outer f (int i + 1) ?a1"
    by (subst selection_outer.simps) (simp only: go r1 sw if_True sum.case)
  then have unf: "selection_outer f (int i) a = selection_outer f (int (Suc i)) ?a1"
    by (simp only: ij)
  note sf = swap_le_facts [OF r(2,3)]
  have min_r: "\<forall>y \<in> set (drop i a). f (a ! r) \<le> f y"
  proof
    fix y assume "y \<in> set (drop i a)"
    then obtain k where "k < length a - i" "y = a ! (i + k)"
      by (auto simp: in_set_conv_nth)
    with r(4) show "f (a ! r) \<le> f y" by simp
  qed
  have ar_in: "a ! r \<in> set (drop i a)"
  proof -
    have "drop i a ! (r - i) = a ! r" using r(2,3) by simp
    moreover have "r - i < length (drop i a)" using r(2,3) by simp
    ultimately show ?thesis by (metis nth_mem)
  qed
  have tk: "take (Suc i) ?a1 = take i a @ [a ! r]"
    using sf(1,2) il by (simp add: take_Suc_conv_app_nth)
  have "i < length ?a1" using il by simp
  then have "drop i ?a1 = ?a1 ! i # drop (Suc i) ?a1" by (rule Cons_nth_drop_Suc [symmetric])
  then have dr: "drop i ?a1 = a ! r # drop (Suc i) ?a1" by (simp only: sf(2))
  have sub: "set (drop (Suc i) ?a1) \<subseteq> set (drop i a)"
  proof -
    have "set (drop i ?a1) = set (drop i a)" using sf(3) by (metis set_mset_mset)
    moreover have "set (drop (Suc i) ?a1) \<subseteq> set (drop i ?a1)"
      by (rule set_drop_subset_set_drop) simp
    ultimately show ?thesis by simp
  qed
  have s1: "sorted (map f (take (Suc i) ?a1))"
    unfolding tk using Suc.prems ar_in by (simp add: sorted_append)
  have s2: "\<forall>x \<in> set (take (Suc i) ?a1). \<forall>y \<in> set (drop (Suc i) ?a1). f x \<le> f y"
    unfolding tk using Suc.prems(2) min_r sub by auto
  have d: "d = length ?a1 - 1 - Suc i" using Suc.hyps(2) by simp
  from Suc.hyps(1) [OF d s1 s2]
  obtain a' where "selection_outer f (int (Suc i)) ?a1 = Inr a'" "sorted (map f a')"
    "mset a' = mset ?a1" by blast
  moreover have "mset ?a1 = mset a" using il r(3) mset_swap [of r a i] by simp
  ultimately show ?case using unf by simp
qed

lemma selectionSort_correct:
  "\<exists>a'. selectionSort f a = Inr a' \<and> sorted (map f a') \<and> mset a' = mset a"
  using selection_outer_correct [of f 0 a] by (simp add: selectionSort_def)

subsection \<open>Insertion sort\<close>

lemma insertion_shift_correct:
  assumes "h < length a"
  shows "\<exists>h'. insertion_shift f key (int h - 1) a
        = Inr (take (Suc h') a @ drop h' (take h a) @ drop (Suc h) a, int h' - 1) \<and>
      h' \<le> h \<and> (\<forall>k. h' \<le> k \<and> k < h \<longrightarrow> f (a ! k) > f key) \<and>
      (0 < h' \<longrightarrow> f (a ! (h' - 1)) \<le> f key)"
  using assms
proof (induction h arbitrary: a)
  case 0
  have "insertion_shift f key (int 0 - 1) a = Inr (a, int 0 - 1)"
    by (subst insertion_shift.simps) simp
  moreover have "take (Suc 0) a @ drop 0 (take 0 a) @ drop (Suc 0) a = a" by simp
  ultimately show ?case by (intro exI [of _ 0]) simp
next
  case (Suc h)
  have j: "int (Suc h) - 1 = int h" by simp
  have hl: "h < length a" "Suc h < length a" using Suc.prems by simp_all
  show ?case
  proof (cases "f (a ! h) > f key")
    case False
    have "insertion_shift f key (int (Suc h) - 1) a = Inr (a, int (Suc h) - 1)"
      unfolding j using hl False by (subst insertion_shift.simps) simp
    moreover have "take (Suc (Suc h)) a @ drop (Suc h) (take (Suc h) a) @ drop (Suc (Suc h)) a = a"
      by simp
    moreover have "f (a ! h) \<le> f key" using False by (simp add: not_less)
    ultimately show ?thesis by (intro exI [of _ "Suc h"]) auto
  next
    case True
    let ?a1 = "a[Suc h := a ! h]"
    have n1: "nat (int h + 1) = Suc h" by simp
    have "insertion_shift f key (int h) a = insertion_shift f key (int h - 1) ?a1"
      using hl True by (subst insertion_shift.simps) (simp add: n1)
    then have unf: "insertion_shift f key (int (Suc h) - 1) a = insertion_shift f key (int h - 1) ?a1"
      by (simp only: j)
    have "h < length ?a1" using hl by simp
    from Suc.IH [OF this]
    obtain h' where r: "insertion_shift f key (int h - 1) ?a1
        = Inr (take (Suc h') ?a1 @ drop h' (take h ?a1) @ drop (Suc h) ?a1, int h' - 1)"
      "h' \<le> h" "\<forall>k. h' \<le> k \<and> k < h \<longrightarrow> f (?a1 ! k) > f key"
      "0 < h' \<longrightarrow> f (?a1 ! (h' - 1)) \<le> f key" by blast
    have t1: "take (Suc h') ?a1 = take (Suc h') a" using r(2) by simp
    have t2: "take h ?a1 = take h a" by simp
    have "Suc h < length ?a1" using hl by simp
    then have "drop (Suc h) ?a1 = ?a1 ! Suc h # drop (Suc (Suc h)) ?a1"
      by (rule Cons_nth_drop_Suc [symmetric])
    then have t3: "drop (Suc h) ?a1 = a ! h # drop (Suc (Suc h)) a"
      using hl by simp
    have t4: "drop h' (take (Suc h) a) = drop h' (take h a) @ [a ! h]"
      using hl r(2) by (simp add: take_Suc_conv_app_nth)
    have eq: "take (Suc h') ?a1 @ drop h' (take h ?a1) @ drop (Suc h) ?a1
        = take (Suc h') a @ drop h' (take (Suc h) a) @ drop (Suc (Suc h)) a"
      unfolding t1 t2 t3 t4 by simp
    have c1: "\<forall>k. h' \<le> k \<and> k < Suc h \<longrightarrow> f (a ! k) > f key"
    proof (intro allI impI)
      fix k assume k: "h' \<le> k \<and> k < Suc h"
      show "f key < f (a ! k)"
      proof (cases "k = h")
        case True with \<open>f key < f (a ! h)\<close> show ?thesis by simp
      next
        case False
        with k r(3) have "f key < f (?a1 ! k)" by simp
        with False k show ?thesis by simp
      qed
    qed
    have c2: "0 < h' \<longrightarrow> f (a ! (h' - 1)) \<le> f key" using r(4) r(2) by auto
    from unf r(1) eq have "insertion_shift f key (int (Suc h) - 1) a
        = Inr (take (Suc h') a @ drop h' (take (Suc h) a) @ drop (Suc (Suc h)) a, int h' - 1)"
      by simp
    with r(2) c1 c2 show ?thesis by (intro exI [of _ h']) simp
  qed
qed

lemma stable_rel_move_left:
  assumes "\<forall>b \<in> set B. f b \<noteq> f x"
  shows "stable_rel f (P @ x # B @ D) (P @ B @ x # D)"
  using assms by (auto simp: stable_rel_def filter_empty_conv intro!: filter_cong)

lemma insertion_outer_correct:
  assumes "sorted (map f (take i a))"
  shows "\<exists>a'. insertion_outer f (int i) a = Inr a' \<and> sorted (map f a') \<and> stable_rel f a' a"
  using assms
proof (induction "length a - i" arbitrary: i a)
  case 0
  then have "insertion_outer f (int i) a = Inr a" by (subst insertion_outer.simps) simp
  moreover from 0 have "sorted (map f a)" by simp
  ultimately show ?case by simp
next
  case (Suc d)
  then have il: "i < length a" by simp
  define key where "key = a ! i"
  from insertion_shift_correct [OF il, of f key]
  obtain h' where r: "insertion_shift f key (int i - 1) a
        = Inr (take (Suc h') a @ drop h' (take i a) @ drop (Suc i) a, int h' - 1)"
      "h' \<le> i" "\<forall>k. h' \<le> k \<and> k < i \<longrightarrow> f (a ! k) > f key"
      "0 < h' \<longrightarrow> f (a ! (h' - 1)) \<le> f key" by blast
  define B where "B = drop h' (take i a)"
  define D where "D = drop (Suc i) a"
  define P where "P = take h' a"
  let ?a1 = "take (Suc h') a @ B @ D"
  let ?a2 = "P @ key # B @ D"
  have hl: "h' < length a" using r(2) il by simp
  have lP: "length P = h'" using hl by (simp add: P_def)
  have a1: "?a1 = P @ a ! h' # B @ D" using hl by (simp add: P_def take_Suc_conv_app_nth)
  have upd: "?a1[h' := key] = ?a2"
    unfolding a1 using lP by (metis list_update_length)
  have len1: "length ?a1 = length a" using r(2) il by (simp add: B_def D_def)
  have a_eq: "a = P @ B @ key # D"
  proof -
    have "take i a = P @ B" using r(2)
      by (metis B_def P_def append_take_drop_id min.absorb1 take_take)
    moreover have "a = take i a @ a ! i # drop (Suc i) a" using il by (rule id_take_nth_drop)
    ultimately show ?thesis by (simp add: key_def D_def)
  qed
  have ij: "int (Suc i) = int i + 1" by simp
  have cond: "0 \<le> int h' - 1 + 1 \<and> int h' - 1 + 1 < int (length ?a1)" using hl len1 by simp
  have nat_h: "nat (int h' - 1 + 1) = h'" by simp
  have go: "int i < int (length a)" "0 \<le> int i" using il by simp_all
  have "insertion_outer f (int i) a = insertion_outer f (int i + 1) (?a1[h' := key])"
    using r(1) cond
    by (subst insertion_outer.simps)
      (simp only: go if_True Let_def nat_int key_def [symmetric] B_def [symmetric]
        D_def [symmetric] sum.case prod.case nat_h simp_thms)
  then have unf: "insertion_outer f (int i) a = insertion_outer f (int (Suc i)) ?a2"
    by (simp only: ij upd)
  have Bgt: "\<forall>b \<in> set B. f key < f b"
  proof
    fix b assume "b \<in> set B"
    then obtain k where k: "k < length B" "b = B ! k" by (auto simp: in_set_conv_nth)
    then have ki: "k < i - h'" using il by (simp add: B_def)
    then have lt: "h' + k < i" by simp
    have "B ! k = a ! (h' + k)"
      using ki il r(2) by (simp add: B_def nth_drop)
    moreover have "f key < f (a ! (h' + k))" using r(3) lt by simp
    ultimately show "f key < f b" using k by simp
  qed
  have sPB: "sorted (map f (P @ B))"
    using Suc.prems a_eq il
    by (metis B_def P_def append_take_drop_id min.absorb1 r(2) take_take)
  have Ple: "\<forall>p \<in> set P. f p \<le> f key"
  proof
    fix p assume "p \<in> set P"
    then obtain k where k: "k < h'" "p = a ! k" using hl by (auto simp: in_set_conv_nth P_def)
    then have pos: "0 < h'" by simp
    have "sorted (map f P)" using sPB by (simp add: sorted_append)
    then have "map f P ! k \<le> map f P ! (h' - 1)"
      using k lP by (intro sorted_nth_mono) simp_all
    then have "f (a ! k) \<le> f (a ! (h' - 1))" using k lP hl by (simp add: P_def)
    with r(4) pos k show "f p \<le> f key" by (auto intro: order_trans)
  qed
  have lPB: "length (P @ key # B) = Suc i" using lP r(2) il by (simp add: B_def)
  have "take (length (P @ key # B)) ((P @ key # B) @ D) = P @ key # B"
    by (rule append_eq_conv_conj [THEN iffD1, THEN conjunct1, symmetric, OF refl])
  then have tk2: "take (Suc i) ?a2 = P @ key # B" by (simp only: lPB append_assoc append_Cons)
  have sorted2: "sorted (map f (take (Suc i) ?a2))"
    unfolding tk2 using sPB Ple Bgt by (auto simp: sorted_append less_imp_le)
  have st: "stable_rel f ?a2 a"
    unfolding a_eq [unfolded append_assoc]
    using Bgt by (intro stable_rel_move_left) auto
  have d: "d = length ?a2 - Suc i" using Suc.hyps(2) len1 a1 by simp
  from Suc.hyps(1) [OF d sorted2]
  obtain a' where "insertion_outer f (int (Suc i)) ?a2 = Inr a'" "sorted (map f a')"
    "stable_rel f a' ?a2" by blast
  with unf st show ?case by (auto intro: stable_rel_trans)
qed

lemma insertionSort_correct:
  "\<exists>a'. insertionSort f a = Inr a' \<and> sorted (map f a') \<and> stable_rel f a' a"
proof -
  have "sorted (map f (take 1 a))" by (metis length_map length_take min.cobounded2 sorted01)
  from insertion_outer_correct [OF this] show ?thesis by (simp add: insertionSort_def)
qed

subsection \<open>Merge sort\<close>

text \<open>
  The merge of two lists as a recursive function, taking from the left list on ties; the
  loops of \<^verbatim>\<open>merge\<close> are shown to compute it.
\<close>

fun merge_list :: "('a \<Rightarrow> 'k::linorder) \<Rightarrow> 'a list \<Rightarrow> 'a list \<Rightarrow> 'a list" where
  "merge_list f [] ys = ys"
| "merge_list f xs [] = xs"
| "merge_list f (x # xs) (y # ys) =
     (if f x \<le> f y then x # merge_list f xs (y # ys) else y # merge_list f (x # xs) ys)"

lemma merge_list_Nil2 [simp]: "merge_list f xs [] = xs"
  by (cases xs) simp_all

lemma set_merge_list: "set (merge_list f xs ys) = set xs \<union> set ys"
  by (induction f xs ys rule: merge_list.induct) auto

lemma sorted_merge_list:
  "sorted (map f xs) \<Longrightarrow> sorted (map f ys) \<Longrightarrow> sorted (map f (merge_list f xs ys))"
  by (induction f xs ys rule: merge_list.induct) (auto simp: set_merge_list)

lemma stable_merge_list:
  "sorted (map f xs) \<Longrightarrow> stable_rel f (merge_list f xs ys) (xs @ ys)"
proof (induction f xs ys rule: merge_list.induct)
  case (3 f x xs y ys)
  show ?case
  proof (cases "f x \<le> f y")
    case True
    with 3 show ?thesis by (simp add: stable_rel_def)
  next
    case False
    from 3 False have ih: "stable_rel f (merge_list f (x # xs) ys) ((x # xs) @ ys)" by simp
    show ?thesis
      unfolding stable_rel_def
    proof
      fix k
      show "filter (\<lambda>z. f z = k) (merge_list f (x # xs) (y # ys))
          = filter (\<lambda>z. f z = k) ((x # xs) @ y # ys)"
      proof (cases "f y = k")
        case True
        have nx: "f x \<noteq> k" using False True by auto
        have nxs: "filter (\<lambda>z. f z = k) xs = []"
          using "3.prems" False True by (auto simp: filter_empty_conv)
        from ih have "filter (\<lambda>z. f z = k) (merge_list f (x # xs) ys)
            = filter (\<lambda>z. f z = k) (x # xs) @ filter (\<lambda>z. f z = k) ys"
          by (simp add: stable_rel_def)
        then show ?thesis using False True nx nxs by simp
      next
        case ne: False
        from ih have "filter (\<lambda>z. f z = k) (merge_list f (x # xs) ys)
            = filter (\<lambda>z. f z = k) (x # xs) @ filter (\<lambda>z. f z = k) ys"
          by (simp add: stable_rel_def)
        with False ne show ?thesis by simp
      qed
    qed
  qed
qed simp_all

lemma merge_list_sort_key:
  "merge_list f (sort_key f xs) (sort_key f ys) = sort_key f (xs @ ys)"
proof (rule sorted_stable_eq_sort_key)
  show "sorted (map f (merge_list f (sort_key f xs) (sort_key f ys)))"
    by (intro sorted_merge_list) simp_all
  have "stable_rel f (merge_list f (sort_key f xs) (sort_key f ys)) (sort_key f xs @ sort_key f ys)"
    by (intro stable_merge_list) simp
  moreover have "stable_rel f (sort_key f xs @ sort_key f ys) (xs @ ys)"
    by (intro stable_rel_append) (simp_all add: stable_rel_def sort_key_stable)
  ultimately show "stable_rel f (merge_list f (sort_key f xs) (sort_key f ys)) (xs @ ys)"
    by (rule stable_rel_trans)
qed

lemma copy_range_correct:
  assumes "s + n \<le> length a" "i \<le> n"
  shows "copy_range a (int s) (int n) (int i) t = Inr (t @ take (n - i) (drop (s + i) a))"
  using assms
proof (induction "n - i" arbitrary: i t)
  case 0
  then show ?case by (subst copy_range.simps) simp
next
  case (Suc d)
  then have lt: "i < n" and rng: "s + i < length a" by simp_all
  have ij: "int i + 1 = int (Suc i)" by simp
  have "copy_range a (int s) (int n) (int i) t
      = copy_range a (int s) (int n) (int i + 1) (t @ [a ! (s + i)])"
    using lt rng by (subst copy_range.simps) (simp add: nat_add_distrib)
  also have "\<dots> = copy_range a (int s) (int n) (int (Suc i)) (t @ [a ! (s + i)])"
    by (simp only: ij)
  also have "\<dots> = Inr ((t @ [a ! (s + i)]) @ take (n - Suc i) (drop (s + Suc i) a))"
    using Suc.hyps(2) Suc.prems lt by (intro Suc.hyps(1)) simp_all
  also have "(t @ [a ! (s + i)]) @ take (n - Suc i) (drop (s + Suc i) a)
      = t @ take (n - i) (drop (s + i) a)"
  proof -
    have "drop (s + i) a = a ! (s + i) # drop (s + Suc i) a"
      using rng by (simp add: Cons_nth_drop_Suc)
    moreover have "n - i = Suc (n - Suc i)" using lt by simp
    ultimately show ?thesis by simp
  qed
  finally show ?case .
qed

lemma copy_range_frame:
  "copy_range (P @ X @ Q) (int (length P)) (int (length X)) 0 [] = Inr X"
  using copy_range_correct [of "length P" "length X" "P @ X @ Q" 0 "[]"] by simp

lemma drain_frame:
  assumes "n = length t" "i \<le> n" "length Z = n - i"
  shows "drain t (int n) (int i) (int (length A)) (A @ Z @ C)
      = Inr (A @ drop i t @ C, int (length A + (n - i)))"
  using assms
proof (induction "n - i" arbitrary: i A Z)
  case 0
  then show ?case by (subst drain.simps) simp
next
  case (Suc d)
  then have lt: "i < n" by simp
  with Suc.prems obtain z Z0 where Z: "Z = z # Z0" by (cases Z) simp_all
  have ij: "int i + 1 = int (Suc i)" "int (length A) + 1 = int (length (A @ [t ! i]))" by simp_all
  have upd: "(A @ Z @ C)[length A := t ! i] = (A @ [t ! i]) @ Z0 @ C" by (simp add: Z)
  have "drain t (int n) (int i) (int (length A)) (A @ Z @ C)
      = drain t (int n) (int i + 1) (int (length A) + 1) ((A @ Z @ C)[length A := t ! i])"
    using lt Suc.prems(1) Z by (subst drain.simps) simp
  also have "\<dots> = drain t (int n) (int (Suc i)) (int (length (A @ [t ! i]))) ((A @ [t ! i]) @ Z0 @ C)"
    by (simp only: ij upd)
  also have "\<dots> = Inr ((A @ [t ! i]) @ drop (Suc i) t @ C, int (length (A @ [t ! i]) + (n - Suc i)))"
    using Suc.hyps(2) Suc.prems lt Z by (intro Suc.hyps(1)) simp_all
  also have "(A @ [t ! i]) @ drop (Suc i) t @ C = A @ drop i t @ C"
    using lt Suc.prems(1) by (simp add: Cons_nth_drop_Suc)
  also have "int (length (A @ [t ! i]) + (n - Suc i)) = int (length A + (n - i))"
    using lt by simp
  finally show ?case .
qed

lemma merge_loop_frame:
  assumes "length L = n1" "length R = n2" "i \<le> n1" "j \<le> n2"
    "length Z = (n1 - i) + (n2 - j)"
  shows "\<exists>M Z' i' j'.
      merge_loop f L R (int n1) (int n2) (int i) (int j) (int (length A)) (A @ Z @ C)
        = Inr (A @ M @ Z' @ C, int i', int j', int (length A + length M)) \<and>
      (i' = n1 \<or> j' = n2) \<and> i' \<le> n1 \<and> j' \<le> n2 \<and>
      length Z' = (n1 - i') + (n2 - j') \<and>
      M @ merge_list f (drop i' L) (drop j' R) = merge_list f (drop i L) (drop j R)"
  using assms
proof (induction "(n1 - i) + (n2 - j)" arbitrary: i j A Z)
  case 0
  then have e: "i = n1" "j = n2" "Z = []" by simp_all
  have "merge_loop f L R (int n1) (int n2) (int i) (int j) (int (length A)) (A @ Z @ C)
      = Inr (A @ Z @ C, int i, int j, int (length A))"
    using e by (subst merge_loop.simps) simp
  then have "merge_loop f L R (int n1) (int n2) (int i) (int j) (int (length A)) (A @ Z @ C)
        = Inr (A @ [] @ Z @ C, int i, int j, int (length A + length [])) \<and>
      (i = n1 \<or> j = n2) \<and> i \<le> n1 \<and> j \<le> n2 \<and>
      length Z = (n1 - i) + (n2 - j) \<and>
      [] @ merge_list f (drop i L) (drop j R) = merge_list f (drop i L) (drop j R)"
    using e by simp
  then show ?case by blast
next
  case (Suc d)
  show ?case
  proof (cases "i < n1 \<and> j < n2")
    case False
    have "merge_loop f L R (int n1) (int n2) (int i) (int j) (int (length A)) (A @ Z @ C)
        = Inr (A @ Z @ C, int i, int j, int (length A))"
      using False by (subst merge_loop.simps) auto
    moreover have "i = n1 \<or> j = n2" using False Suc.prems by auto
    ultimately have "merge_loop f L R (int n1) (int n2) (int i) (int j) (int (length A)) (A @ Z @ C)
        = Inr (A @ [] @ Z @ C, int i, int j, int (length A + length [])) \<and>
      (i = n1 \<or> j = n2) \<and> i \<le> n1 \<and> j \<le> n2 \<and>
      length Z = (n1 - i) + (n2 - j) \<and>
      [] @ merge_list f (drop i L) (drop j R) = merge_list f (drop i L) (drop j R)"
      using Suc.prems by simp
    then show ?thesis by blast
  next
    case True
    then have lt: "i < n1" "j < n2" by simp_all
    with Suc.prems obtain z Z0 where Z: "Z = z # Z0" by (cases Z) simp_all
    have dL: "drop i L = L ! i # drop (Suc i) L" using lt Suc.prems(1) by (simp add: Cons_nth_drop_Suc)
    have dR: "drop j R = R ! j # drop (Suc j) R" using lt Suc.prems(2) by (simp add: Cons_nth_drop_Suc)
    have rng: "0 \<le> int i \<and> int i < int (length L) \<and> 0 \<le> int j \<and> int j < int (length R) \<and>
        0 \<le> int (length A) \<and> int (length A) < int (length (A @ Z @ C))"
      using lt Suc.prems(1,2) Z by simp
    have cnd: "int i < int n1 \<and> int j < int n2" using lt by simp
    have ii: "int i + 1 = int (Suc i)" and jj: "int j + 1 = int (Suc j)" by simp_all
    show ?thesis
    proof (cases "f (L ! i) \<le> f (R ! j)")
      case le: True
      let ?x = "L ! i"
      have kk: "int (length A) + 1 = int (length (A @ [?x]))" by simp
      have upd: "(A @ Z @ C)[length A := ?x] = (A @ [?x]) @ Z0 @ C" by (simp add: Z)
      have "merge_loop f L R (int n1) (int n2) (int i) (int j) (int (length A)) (A @ Z @ C)
          = merge_loop f L R (int n1) (int n2) (int i + 1) (int j) (int (length A) + 1)
              ((A @ Z @ C)[length A := ?x])"
        by (subst merge_loop.simps) (simp only: cnd rng le if_True nat_int simp_thms)
      then have unf: "merge_loop f L R (int n1) (int n2) (int i) (int j) (int (length A)) (A @ Z @ C)
          = merge_loop f L R (int n1) (int n2) (int (Suc i)) (int j) (int (length (A @ [?x])))
              ((A @ [?x]) @ Z0 @ C)"
        by (simp only: ii kk upd)
      have d: "d = (n1 - Suc i) + (n2 - j)" using Suc.hyps(2) lt by simp
      have lz: "length Z0 = (n1 - Suc i) + (n2 - j)" using Suc.prems(5) Z lt by simp
      have si: "Suc i \<le> n1" using lt by simp
      from Suc.hyps(1) [OF d Suc.prems(1,2) si Suc.prems(4) lz, of "A @ [?x]"]
      obtain M Z' i' j' where r:
        "merge_loop f L R (int n1) (int n2) (int (Suc i)) (int j) (int (length (A @ [?x])))
            ((A @ [?x]) @ Z0 @ C)
          = Inr ((A @ [?x]) @ M @ Z' @ C, int i', int j', int (length (A @ [?x]) + length M))"
        "i' = n1 \<or> j' = n2" "i' \<le> n1" "j' \<le> n2" "length Z' = (n1 - i') + (n2 - j')"
        "M @ merge_list f (drop i' L) (drop j' R) = merge_list f (drop (Suc i) L) (drop j R)"
        by blast
      have res: "merge_loop f L R (int n1) (int n2) (int i) (int j) (int (length A)) (A @ Z @ C)
          = Inr (A @ (?x # M) @ Z' @ C, int i', int j', int (length A + length (?x # M)))"
        using unf r(1) by simp
      have "(?x # M) @ merge_list f (drop i' L) (drop j' R) = merge_list f (drop i L) (drop j R)"
        using r(6) le dL dR by simp
      with res r(2-5) show ?thesis by blast
    next
      case gt: False
      let ?y = "R ! j"
      have kk: "int (length A) + 1 = int (length (A @ [?y]))" by simp
      have upd: "(A @ Z @ C)[length A := ?y] = (A @ [?y]) @ Z0 @ C" by (simp add: Z)
      have "merge_loop f L R (int n1) (int n2) (int i) (int j) (int (length A)) (A @ Z @ C)
          = merge_loop f L R (int n1) (int n2) (int i) (int j + 1) (int (length A) + 1)
              ((A @ Z @ C)[length A := ?y])"
        by (subst merge_loop.simps) (simp only: cnd rng gt if_True if_False nat_int simp_thms)
      then have unf: "merge_loop f L R (int n1) (int n2) (int i) (int j) (int (length A)) (A @ Z @ C)
          = merge_loop f L R (int n1) (int n2) (int i) (int (Suc j)) (int (length (A @ [?y])))
              ((A @ [?y]) @ Z0 @ C)"
        by (simp only: jj kk upd)
      have d: "d = (n1 - i) + (n2 - Suc j)" using Suc.hyps(2) lt by simp
      have lz: "length Z0 = (n1 - i) + (n2 - Suc j)" using Suc.prems(5) Z lt by simp
      have sj: "Suc j \<le> n2" using lt by simp
      from Suc.hyps(1) [OF d Suc.prems(1,2,3) sj lz, of "A @ [?y]"]
      obtain M Z' i' j' where r:
        "merge_loop f L R (int n1) (int n2) (int i) (int (Suc j)) (int (length (A @ [?y])))
            ((A @ [?y]) @ Z0 @ C)
          = Inr ((A @ [?y]) @ M @ Z' @ C, int i', int j', int (length (A @ [?y]) + length M))"
        "i' = n1 \<or> j' = n2" "i' \<le> n1" "j' \<le> n2" "length Z' = (n1 - i') + (n2 - j')"
        "M @ merge_list f (drop i' L) (drop j' R) = merge_list f (drop i L) (drop (Suc j) R)"
        by blast
      have res: "merge_loop f L R (int n1) (int n2) (int i) (int j) (int (length A)) (A @ Z @ C)
          = Inr (A @ (?y # M) @ Z' @ C, int i', int j', int (length A + length (?y # M)))"
        using unf r(1) by simp
      have "(?y # M) @ merge_list f (drop i' L) (drop j' R) = merge_list f (drop i L) (drop j R)"
        using r(6) gt dL dR by simp
      with res r(2-5) show ?thesis by blast
    qed
  qed
qed

lemma merge_unfold:
  assumes "n1 = mid - left + 1" "n2 = right - mid" "0 \<le> n1" "0 \<le> n2"
    "copy_range a left n1 0 [] = Inr L" "copy_range a (mid + 1) n2 0 [] = Inr R"
    "merge_loop f L R n1 n2 0 0 left a = Inr (a1, i, j, k)"
    "drain L n1 i k a1 = Inr (a2, k2)" "drain R n2 j k2 a2 = Inr (a3, k3)"
  shows "merge f a left mid right = Inr a3"
proof -
  have "\<not> (mid - left + 1 < 0 \<or> right - mid < 0)" using assms(1-4) by simp
  then show ?thesis
    using assms(5-9) unfolding assms(1,2) by (simp add: merge_def Let_def)
qed

lemma merge_frame:
  "merge f (P @ X @ Y @ Q) (int (length P)) (int (length P + length X) - 1)
      (int (length P + length X + length Y) - 1)
   = Inr (P @ merge_list f X Y @ Q)"
proof -
  let ?a = "P @ X @ Y @ Q"
  let ?left = "int (length P)" and ?mid = "int (length P + length X) - 1"
    and ?right = "int (length P + length X + length Y) - 1"
  have n1: "int (length X) = ?mid - ?left + 1" by simp
  have n2: "int (length Y) = ?right - ?mid" by simp
  have c1: "copy_range ?a ?left (int (length X)) 0 [] = Inr X" by (rule copy_range_frame)
  have "copy_range ((P @ X) @ Y @ Q) (int (length (P @ X))) (int (length Y)) 0 [] = Inr Y"
    by (rule copy_range_frame)
  then have c2: "copy_range ?a (?mid + 1) (int (length Y)) 0 [] = Inr Y" by simp
  from merge_loop_frame [OF refl refl, where L = X and R = Y and i = 0 and j = 0
      and Z = "X @ Y" and A = P and C = Q and f = f]
  obtain M Z' i' j' where r:
    "merge_loop f X Y (int (length X)) (int (length Y)) (int 0) (int 0) (int (length P))
        (P @ (X @ Y) @ Q) = Inr (P @ M @ Z' @ Q, int i', int j', int (length P + length M))"
    "i' = length X \<or> j' = length Y" "i' \<le> length X" "j' \<le> length Y"
    "length Z' = (length X - i') + (length Y - j')"
    "M @ merge_list f (drop i' X) (drop j' Y) = merge_list f (drop 0 X) (drop 0 Y)"
    by auto
  from r(1) have ml: "merge_loop f X Y (int (length X)) (int (length Y)) 0 0 ?left ?a
      = Inr (P @ M @ Z' @ Q, int i', int j', int (length P + length M))" by simp
  define Z1 where "Z1 = take (length X - i') Z'"
  define Z2 where "Z2 = drop (length X - i') Z'"
  have zz: "Z' = Z1 @ Z2" by (simp add: Z1_def Z2_def)
  have l1: "length Z1 = length X - i'" using r(5) by (simp add: Z1_def)
  have l2: "length Z2 = length Y - j'" using r(5) by (simp add: Z2_def)
  have "drain X (int (length X)) (int i') (int (length (P @ M))) ((P @ M) @ Z1 @ (Z2 @ Q))
      = Inr ((P @ M) @ drop i' X @ (Z2 @ Q), int (length (P @ M) + (length X - i')))"
    using r(3) l1 by (intro drain_frame) simp_all
  then have d1: "drain X (int (length X)) (int i') (int (length P + length M)) (P @ M @ Z' @ Q)
      = Inr (P @ M @ drop i' X @ Z2 @ Q, int (length (P @ M @ drop i' X)))"
    using r(3) by (simp add: zz)
  have "drain Y (int (length Y)) (int j') (int (length (P @ M @ drop i' X)))
        ((P @ M @ drop i' X) @ Z2 @ Q)
      = Inr ((P @ M @ drop i' X) @ drop j' Y @ Q,
          int (length (P @ M @ drop i' X) + (length Y - j')))"
    using r(4) l2 by (intro drain_frame) simp_all
  then have d2: "drain Y (int (length Y)) (int j') (int (length (P @ M @ drop i' X)))
        (P @ M @ drop i' X @ Z2 @ Q)
      = Inr (P @ M @ drop i' X @ drop j' Y @ Q,
          int (length (P @ M @ drop i' X) + (length Y - j')))"
    by simp
  have "merge f ?a ?left ?mid ?right = Inr (P @ M @ drop i' X @ drop j' Y @ Q)"
    by (rule merge_unfold [OF n1 n2 _ _ c1 c2 ml d1 d2]) simp_all
  moreover have "merge_list f (drop i' X) (drop j' Y) = drop i' X @ drop j' Y"
    using r(2,3,4) by auto
  with r(6) have "M @ drop i' X @ drop j' Y = merge_list f X Y" by simp
  ultimately show ?thesis by simp
qed

lemma mergeSort_rec_frame:
  assumes "X \<noteq> []"
  shows "mergeSort_rec f (P @ X @ Q) (int (length P)) (int (length P + length X) - 1)
      = Inr (P @ sort_key f X @ Q)"
  using assms
proof (induction "length X" arbitrary: X P Q rule: less_induct)
  case less
  let ?left = "int (length P)" and ?right = "int (length P + length X) - 1"
  show ?case
  proof (cases "length X = 1")
    case True
    then obtain x where X: "X = [x]" by (cases X) simp_all
    have "?left \<ge> ?right" using True by simp
    then have "mergeSort_rec f (P @ X @ Q) ?left ?right = Inr (P @ X @ Q)"
      by (subst mergeSort_rec.simps) simp
    with X show ?thesis by simp
  next
    case False
    with less.prems have len: "2 \<le> length X" by (cases X) (simp_all add: Suc_le_eq)
    define h where "h = (length X - 1) div 2 + 1"
    define X1 where "X1 = take h X"
    define X2 where "X2 = drop h X"
    have h: "0 < h" "h < length X" using len by (simp_all add: h_def)
    have X: "X = X1 @ X2" by (simp add: X1_def X2_def)
    have l1: "length X1 = h" using h by (simp add: X1_def)
    have l2: "length X2 = length X - h" by (simp add: X2_def)
    have ne: "X1 \<noteq> []" "X2 \<noteq> []" using h l1 l2 by auto
    have lt: "length X1 < length X" "length X2 < length X" using h l1 l2 by simp_all
    have go: "\<not> ?left \<ge> ?right" using len by simp
    have rl: "?right - ?left = int (length X - 1)" using len by simp
    have "java_div (int (length X - 1)) 2 = int (length X - 1) div 2"
      by (rule java_div_2) simp
    also have "\<dots> = int ((length X - 1) div 2)" by simp
    finally have "java_div (?right - ?left) 2 = int ((length X - 1) div 2)"
      by (simp only: rl)
    then have mid: "?left + java_div (?right - ?left) 2 = int (length P + length X1) - 1"
      using l1 by (simp add: h_def)
    have mid1: "int (length P + length X1) - 1 + 1 = int (length (P @ sort_key f X1))"
      by simp
    have right2: "?right = int (length (P @ sort_key f X1) + length X2) - 1"
      using X by simp
    have s1: "mergeSort_rec f (P @ X1 @ (X2 @ Q)) ?left (int (length P + length X1) - 1)
        = Inr (P @ sort_key f X1 @ (X2 @ Q))"
      using lt(1) ne(1) by (rule less.hyps)
    have s2: "mergeSort_rec f ((P @ sort_key f X1) @ X2 @ Q)
          (int (length (P @ sort_key f X1))) (int (length (P @ sort_key f X1) + length X2) - 1)
        = Inr ((P @ sort_key f X1) @ sort_key f X2 @ Q)"
      using lt(2) ne(2) by (rule less.hyps)
    have mg: "merge f (P @ sort_key f X1 @ sort_key f X2 @ Q) ?left
          (int (length P + length (sort_key f X1)) - 1)
          (int (length P + length (sort_key f X1) + length (sort_key f X2)) - 1)
        = Inr (P @ merge_list f (sort_key f X1) (sort_key f X2) @ Q)"
      by (rule merge_frame)
    have "mergeSort_rec f (P @ X @ Q) ?left ?right
        = (case mergeSort_rec f (P @ X @ Q) ?left (int (length P + length X1) - 1) of
             Inl e \<Rightarrow> Inl e
           | Inr a1 \<Rightarrow>
               (case mergeSort_rec f a1 (int (length P + length X1) - 1 + 1) ?right of
                  Inl e \<Rightarrow> Inl e
                | Inr a2 \<Rightarrow> merge f a2 ?left (int (length P + length X1) - 1) ?right))"
      by (subst mergeSort_rec.simps) (simp only: go if_False Let_def mid)
    also have "\<dots> = merge f (P @ sort_key f X1 @ sort_key f X2 @ Q) ?left
          (int (length P + length X1) - 1) ?right"
      using s1 s2 unfolding mid1 right2 [symmetric] by (simp add: X)
    also have "\<dots> = Inr (P @ merge_list f (sort_key f X1) (sort_key f X2) @ Q)"
    proof -
      have e1: "int (length P + length X1) - 1 = int (length P + length (sort_key f X1)) - 1"
        by simp
      have e2: "?right = int (length P + length (sort_key f X1) + length (sort_key f X2)) - 1"
        using X by simp
      show ?thesis unfolding e1 e2 by (rule mg)
    qed
    also have "merge_list f (sort_key f X1) (sort_key f X2) = sort_key f X"
      using X by (simp add: merge_list_sort_key)
    finally show ?thesis .
  qed
qed

lemma mergeSort_correct: "mergeSort f a = Inr (sort_key f a)"
proof (cases "length a \<le> 1")
  case True
  then have "sort_key f a = a" by (cases a) (simp_all add: Suc_le_eq)
  with True show ?thesis by (simp add: mergeSort_def)
next
  case False
  then have ne: "a \<noteq> []" by auto
  from mergeSort_rec_frame [OF ne, of f "[]" "[]"] False show ?thesis
    by (simp add: mergeSort_def)
qed

subsection \<open>Quick sort\<close>

lemma swap_frame:
  "swap (A @ x # B @ y # C) (int (length A)) (int (length A + length B + 1))
   = Inr (A @ y # B @ x # C)"
proof -
  let ?a = "A @ x # B @ y # C"
  have i: "length A < length ?a" and j: "length A + length B + 1 < length ?a" by simp_all
  have nj: "?a ! (length A + length B + 1) = y"
    by (simp add: nth_append nth_Cons')
  have ni: "?a ! length A = x" by simp
  have "?a[length A := y] = A @ y # B @ y # C" by simp
  moreover have "(A @ y # B @ y # C)[length A + length B + 1 := x] = A @ y # B @ x # C"
    by (simp add: list_update_append list_update_code)
  ultimately have "?a[length A := ?a ! (length A + length B + 1),
      length A + length B + 1 := ?a ! length A] = A @ y # B @ x # C"
    by (simp only: nj ni)
  with swap_nat [OF i j] show ?thesis by simp
qed

lemma swap_same: "i < length a \<Longrightarrow> swap a (int i) (int i) = Inr a"
  by (simp add: swap_nat)

lemma partition_loop_stop:
  "\<not> j < high \<Longrightarrow> partition_loop f pivot i j high a = Inr (a, i)"
  by (subst partition_loop.simps) simp

lemma partition_loop_step_le:
  "j < high \<Longrightarrow> 0 \<le> j \<Longrightarrow> j < int (length a) \<Longrightarrow> f (a ! nat j) \<le> f pivot \<Longrightarrow>
   swap a (i + 1) j = Inr a' \<Longrightarrow>
   partition_loop f pivot i j high a = partition_loop f pivot (i + 1) (j + 1) high a'"
  by (subst partition_loop.simps) simp

lemma partition_loop_step_gt:
  "j < high \<Longrightarrow> 0 \<le> j \<Longrightarrow> j < int (length a) \<Longrightarrow> \<not> f (a ! nat j) \<le> f pivot \<Longrightarrow>
   partition_loop f pivot i j high a = partition_loop f pivot i (j + 1) high a"
  by (subst partition_loop.simps) simp

lemma partition_loop_frame:
  assumes "i = int (length P + length S) - 1" "j = int (length P + length S + length G)"
    "high = j + int (length U)"
    "\<forall>s \<in> set S. f s \<le> f pv" "\<forall>g \<in> set G. f pv < f g"
  shows "\<exists>S' G'. partition_loop f pv i j high (P @ S @ G @ U @ R)
        = Inr (P @ S' @ G' @ R, int (length P + length S') - 1) \<and>
      (\<forall>s \<in> set S'. f s \<le> f pv) \<and> (\<forall>g \<in> set G'. f pv < f g) \<and>
      mset (S' @ G') = mset (S @ G @ U)"
  using assms
proof (induction U arbitrary: i j S G)
  case Nil
  then have "\<not> j < high" by simp
  from partition_loop_stop [OF this]
  have "partition_loop f pv i j high (P @ S @ G @ [] @ R)
      = Inr (P @ S @ G @ R, int (length P + length S) - 1)"
    using Nil.prems(1) by simp
  with Nil.prems(4,5) show ?case by auto
next
  case (Cons u U)
  note IH = Cons.IH and prems = Cons.prems
  let ?a = "P @ S @ G @ (u # U) @ R"
  have jh: "j < high" using prems by simp
  have j0: "0 \<le> j" using prems by simp
  have jl: "j < int (length ?a)" using prems by simp
  have nj: "nat j = length (P @ S @ G)" using prems by simp
  have aj: "?a ! nat j = u"
    unfolding nj by (metis append.assoc append_Cons nth_append_length)
  have high': "high = (j + 1) + int (length U)" using prems by simp
  show ?case
  proof (cases "f u \<le> f pv")
    case True
    define S1 where "S1 = S @ [u]"
    have s1: "\<forall>s \<in> set S1. f s \<le> f pv" using prems(4) True by (simp add: S1_def)
    have i1: "i + 1 = int (length P + length S1) - 1" using prems by (simp add: S1_def)
    show ?thesis
    proof (cases "G = []")
      case emp: True
      have idx: "i + 1 = j" using prems emp by simp
      have "swap ?a (i + 1) j = Inr ?a"
        unfolding idx using swap_same [of "nat j" ?a] j0 jl by simp
      from partition_loop_step_le [OF jh j0 jl _ this, of f pv] aj True
      have unf: "partition_loop f pv i j high ?a = partition_loop f pv (i + 1) (j + 1) high ?a"
        by simp
      have arr: "?a = P @ S1 @ G @ U @ R" by (simp add: S1_def emp)
      have j1: "j + 1 = int (length P + length S1 + length G)"
        using prems emp by (simp add: S1_def)
      from IH [OF i1 j1 high' s1 prems(5)]
      obtain S' G' where r: "partition_loop f pv (i + 1) (j + 1) high (P @ S1 @ G @ U @ R)
          = Inr (P @ S' @ G' @ R, int (length P + length S') - 1)"
        "\<forall>s \<in> set S'. f s \<le> f pv" "\<forall>g \<in> set G'. f pv < f g"
        "mset (S' @ G') = mset (S1 @ G @ U)" by auto
      have "partition_loop f pv (i + 1) (j + 1) high ?a
          = partition_loop f pv (i + 1) (j + 1) high (P @ S1 @ G @ U @ R)"
        using arr by (rule arg_cong)
      with unf r(1) have "partition_loop f pv i j high ?a
          = Inr (P @ S' @ G' @ R, int (length P + length S') - 1)" by (simp only:)
      moreover have "mset (S' @ G') = mset (S @ G @ u # U)" using r(4) emp by (simp add: S1_def)
      ultimately show ?thesis using r(2,3) by blast
    next
      case False
      then obtain g G0 where G: "G = g # G0" by (cases G) simp_all
      define G1 where "G1 = G0 @ [g]"
      have g1: "\<forall>x \<in> set G1. f pv < f x" using prems(5) G by (auto simp: G1_def)
      have ii: "i + 1 = int (length (P @ S))" using prems by simp
      have jj: "j = int (length (P @ S) + length G0 + 1)" using prems G by simp
      have "swap ((P @ S) @ g # G0 @ u # (U @ R)) (int (length (P @ S)))
          (int (length (P @ S) + length G0 + 1)) = Inr ((P @ S) @ u # G0 @ g # (U @ R))"
        by (rule swap_frame)
      then have sw: "swap ?a (i + 1) j = Inr (P @ S1 @ G1 @ U @ R)"
        unfolding ii jj by (simp add: G S1_def G1_def)
      from partition_loop_step_le [OF jh j0 jl _ sw, of f pv] aj True
      have unf: "partition_loop f pv i j high ?a
          = partition_loop f pv (i + 1) (j + 1) high (P @ S1 @ G1 @ U @ R)" by simp
      have j1: "j + 1 = int (length P + length S1 + length G1)"
        using prems G by (simp add: S1_def G1_def)
      from IH [OF i1 j1 high' s1 g1]
      obtain S' G' where r: "partition_loop f pv (i + 1) (j + 1) high (P @ S1 @ G1 @ U @ R)
          = Inr (P @ S' @ G' @ R, int (length P + length S') - 1)"
        "\<forall>s \<in> set S'. f s \<le> f pv" "\<forall>g \<in> set G'. f pv < f g"
        "mset (S' @ G') = mset (S1 @ G1 @ U)" by auto
      from unf r(1) have "partition_loop f pv i j high ?a
          = Inr (P @ S' @ G' @ R, int (length P + length S') - 1)" by (simp only:)
      moreover have "mset (S' @ G') = mset (S @ G @ u # U)"
        using r(4) G by (simp add: S1_def G1_def)
      ultimately show ?thesis using r(2,3) by blast
    qed
  next
    case False
    define G1 where "G1 = G @ [u]"
    have g1: "\<forall>x \<in> set G1. f pv < f x" using prems(5) False by (auto simp: G1_def)
    from partition_loop_step_gt [OF jh j0 jl, of f pv] aj False
    have unf: "partition_loop f pv i j high ?a = partition_loop f pv i (j + 1) high ?a"
      by simp
    have arr: "?a = P @ S @ G1 @ U @ R" by (simp add: G1_def)
    have j1: "j + 1 = int (length P + length S + length G1)"
      using prems by (simp add: G1_def)
    from IH [OF prems(1) j1 high' prems(4) g1]
    obtain S' G' where r: "partition_loop f pv i (j + 1) high (P @ S @ G1 @ U @ R)
        = Inr (P @ S' @ G' @ R, int (length P + length S') - 1)"
      "\<forall>s \<in> set S'. f s \<le> f pv" "\<forall>g \<in> set G'. f pv < f g"
      "mset (S' @ G') = mset (S @ G1 @ U)" by auto
    have "partition_loop f pv i (j + 1) high ?a
        = partition_loop f pv i (j + 1) high (P @ S @ G1 @ U @ R)"
      using arr by (rule arg_cong)
    with unf r(1) have "partition_loop f pv i j high ?a
        = Inr (P @ S' @ G' @ R, int (length P + length S') - 1)" by (simp only:)
    moreover have "mset (S' @ G') = mset (S @ G @ u # U)" using r(4) by (simp add: G1_def)
    ultimately show ?thesis using r(2,3) by blast
  qed
qed

lemma partition_unfold:
  "0 \<le> high \<Longrightarrow> high < int (length a) \<Longrightarrow>
   partition_loop f (a ! nat high) (low - 1) low high a = Inr (a1, i) \<Longrightarrow>
   swap a1 (i + 1) high = Inr a2 \<Longrightarrow>
   partition f a low high = Inr (a2, i + 1)"
  by (simp add: partition_def Let_def)

lemma partition_frame:
  "\<exists>S G. partition f (P @ X @ pv # Q) (int (length P)) (int (length P + length X))
      = Inr (P @ S @ pv # G @ Q, int (length P + length S)) \<and>
    (\<forall>s \<in> set S. f s \<le> f pv) \<and> (\<forall>g \<in> set G. f pv < f g) \<and> mset (S @ G) = mset X"
proof -
  let ?a = "P @ X @ pv # Q"
  let ?low = "int (length P)" and ?high = "int (length P + length X)"
  have h0: "0 \<le> ?high" and hl: "?high < int (length ?a)" by simp_all
  have nh: "nat ?high = length (P @ X)" by simp
  have "((P @ X) @ pv # Q) ! length (P @ X) = pv" by (rule nth_append_length)
  then have piv: "?a ! nat ?high = pv" unfolding nh by simp
  have "\<exists>S' G'. partition_loop f pv (?low - 1) ?low ?high (P @ [] @ [] @ X @ (pv # Q))
        = Inr (P @ S' @ G' @ (pv # Q), int (length P + length S') - 1) \<and>
      (\<forall>s \<in> set S'. f s \<le> f pv) \<and> (\<forall>g \<in> set G'. f pv < f g) \<and>
      mset (S' @ G') = mset ([] @ [] @ X)"
    by (rule partition_loop_frame) simp_all
  then obtain S G' where r: "partition_loop f pv (?low - 1) ?low ?high ?a
        = Inr (P @ S @ G' @ pv # Q, int (length P + length S) - 1)"
      "\<forall>s \<in> set S. f s \<le> f pv" "\<forall>g \<in> set G'. f pv < f g" "mset (S @ G') = mset X"
    by auto
  from r(4) have "length (S @ G') = length X" by (metis size_mset)
  then have len: "length X = length S + length G'" by simp
  let ?a1 = "P @ S @ G' @ pv # Q"
  have "\<exists>G. swap ?a1 (int (length P + length S) - 1 + 1) ?high = Inr (P @ S @ pv # G @ Q) \<and>
      (\<forall>g \<in> set G. f pv < f g) \<and> mset (S @ G) = mset X"
  proof (cases "G' = []")
    case True
    have "swap ?a1 (int (length P + length S)) (int (length P + length S)) = Inr ?a1"
      by (rule swap_same) simp
    then have "swap ?a1 (int (length P + length S) - 1 + 1) ?high = Inr (P @ S @ pv # [] @ Q)"
      using True len by simp
    with True r(4) show ?thesis by (intro exI [of _ "[]"]) simp
  next
    case False
    then obtain g G0 where G: "G' = g # G0" by (cases G') simp_all
    have idx1: "int (length P + length S) - 1 + 1 = int (length (P @ S))" by simp
    have idx2: "?high = int (length (P @ S) + length G0 + 1)" using G len by simp
    have arr1: "?a1 = (P @ S) @ g # G0 @ pv # Q" using G by simp
    have "swap ?a1 (int (length P + length S) - 1 + 1) ?high
        = swap ((P @ S) @ g # G0 @ pv # Q) (int (length (P @ S)))
            (int (length (P @ S) + length G0 + 1))"
      by (simp only: idx1 idx2 arr1)
    also have "\<dots> = Inr ((P @ S) @ pv # G0 @ g # Q)" by (rule swap_frame)
    also have "(P @ S) @ pv # G0 @ g # Q = P @ S @ pv # (G0 @ [g]) @ Q" by simp
    finally have "swap ?a1 (int (length P + length S) - 1 + 1) ?high
        = Inr (P @ S @ pv # (G0 @ [g]) @ Q)" .
    moreover have "\<forall>x \<in> set (G0 @ [g]). f pv < f x" using r(3) G by auto
    moreover have "mset (S @ G0 @ [g]) = mset X" using r(4) G by simp
    ultimately show ?thesis by blast
  qed
  then obtain G where sw: "swap ?a1 (int (length P + length S) - 1 + 1) ?high
      = Inr (P @ S @ pv # G @ Q)" "\<forall>g \<in> set G. f pv < f g" "mset (S @ G) = mset X"
    by blast
  from r(1) have lp: "partition_loop f (?a ! nat ?high) (?low - 1) ?low ?high ?a
      = Inr (?a1, int (length P + length S) - 1)" by (simp only: piv)
  from partition_unfold [OF h0 hl lp sw(1)]
  have "partition f ?a ?low ?high = Inr (P @ S @ pv # G @ Q, int (length P + length S))"
    by simp
  with r(2) sw(2,3) show ?thesis by blast
qed

lemma quickSort_rec_stop: "\<not> low < high \<Longrightarrow> quickSort_rec f a low high = Inr a"
  by (subst quickSort_rec.simps) simp

lemma quickSort_rec_unfold:
  "low < high \<Longrightarrow> partition f a low high = Inr (a1, p) \<Longrightarrow>
   quickSort_rec f a1 low (p - 1) = Inr a2 \<Longrightarrow>
   quickSort_rec f a low high = quickSort_rec f a2 (p + 1) high"
  by (subst quickSort_rec.simps) simp

lemma quickSort_rec_frame:
  "\<exists>X'. quickSort_rec f (P @ X @ Q) (int (length P)) (int (length P + length X) - 1)
      = Inr (P @ X' @ Q) \<and> sorted (map f X') \<and> mset X' = mset X"
proof (induction "length X" arbitrary: X P Q rule: less_induct)
  case less
  let ?low = "int (length P)" and ?high = "int (length P + length X) - 1"
  show ?case
  proof (cases "length X \<le> 1")
    case True
    then have "\<not> ?low < ?high" by simp
    from quickSort_rec_stop [OF this]
    have "quickSort_rec f (P @ X @ Q) ?low ?high = Inr (P @ X @ Q)" .
    moreover from True have "sorted (map f X)"
      by (cases X) (simp_all add: Suc_le_eq)
    ultimately show ?thesis by blast
  next
    case False
    then have go: "?low < ?high" by simp
    from False obtain X0 pv where X: "X = X0 @ [pv]" by (cases X rule: rev_cases) simp_all
    have hi: "?high = int (length P + length X0)" using X by simp
    from partition_frame [of f P X0 pv Q]
    obtain S G where pr: "partition f (P @ X0 @ pv # Q) ?low (int (length P + length X0))
        = Inr (P @ S @ pv # G @ Q, int (length P + length S))"
      "\<forall>s \<in> set S. f s \<le> f pv" "\<forall>g \<in> set G. f pv < f g" "mset (S @ G) = mset X0"
      by blast
    have arr: "P @ X @ Q = P @ X0 @ pv # Q" using X by simp
    from pr(4) have "length (S @ G) = length X0" by (metis size_mset)
    then have len: "length X0 = length S + length G" by simp
    have lS: "length S < length X" and lG: "length G < length X" using len X by simp_all
    from less.hyps [OF lS, of P "pv # G @ Q"]
    obtain S' where r1: "quickSort_rec f (P @ S @ pv # G @ Q) ?low (int (length P + length S) - 1)
        = Inr (P @ S' @ pv # G @ Q)" "sorted (map f S')" "mset S' = mset S" by blast
    from r1(3) have lS': "length S' = length S" by (metis size_mset)
    from less.hyps [OF lG, of "P @ S' @ [pv]" Q]
    obtain G' where r2: "quickSort_rec f ((P @ S' @ [pv]) @ G @ Q) (int (length (P @ S' @ [pv])))
          (int (length (P @ S' @ [pv]) + length G) - 1)
        = Inr ((P @ S' @ [pv]) @ G' @ Q)" "sorted (map f G')" "mset G' = mset G" by blast
    have p1: "int (length P + length S) + 1 = int (length (P @ S' @ [pv]))" using lS' by simp
    have h2: "?high = int (length (P @ S' @ [pv]) + length G) - 1" using X len lS' by simp
    have a2: "P @ S' @ pv # G @ Q = (P @ S' @ [pv]) @ G @ Q" by simp
    have pr1: "partition f (P @ X0 @ pv # Q) ?low ?high
        = Inr (P @ S @ pv # G @ Q, int (length P + length S))"
      using pr(1) by (simp only: hi)
    have "quickSort_rec f (P @ X0 @ pv # Q) ?low ?high
        = quickSort_rec f (P @ S' @ pv # G @ Q) (int (length P + length S) + 1) ?high"
      by (rule quickSort_rec_unfold [OF go pr1 r1(1)])
    then have "quickSort_rec f (P @ X @ Q) ?low ?high
        = quickSort_rec f (P @ S' @ pv # G @ Q) (int (length P + length S) + 1) ?high"
      by (simp only: arr)
    also have "\<dots> = Inr ((P @ S' @ [pv]) @ G' @ Q)"
      unfolding p1 a2 h2 by (rule r2(1))
    finally have res: "quickSort_rec f (P @ X @ Q) ?low ?high = Inr (P @ (S' @ pv # G') @ Q)"
      by simp
    have sS: "set S' = set S" using r1(3) by (metis set_mset_mset)
    have sG: "set G' = set G" using r2(3) by (metis set_mset_mset)
    have "sorted (map f (S' @ pv # G'))"
      using r1(2) r2(2) pr(2,3) sS sG
      by (auto simp: sorted_append less_imp_le intro: order_trans)
    moreover have "mset (S' @ pv # G') = mset X"
      using r1(3) r2(3) pr(4) X by simp
    ultimately show ?thesis using res by blast
  qed
qed

lemma quickSort_correct:
  "\<exists>a'. quickSort f a = Inr a' \<and> sorted (map f a') \<and> mset a' = mset a"
  using quickSort_rec_frame [of f "[]" a "[]"] by (simp add: quickSort_def)

subsection \<open>The sorting claims\<close>

text \<open>
  The three algorithms that only ever exchange or move an element past elements with a
  strictly different key return the stable sort of their input.
\<close>

lemma bubbleSort_sort_key: "bubbleSort f a = Inr (sort_key f a)"
proof -
  from bubbleSort_correct [of f a] obtain a' where
    r: "bubbleSort f a = Inr a'" "sorted (map f a')" "stable_rel f a' a" by blast
  from sorted_stable_eq_sort_key [OF r(2,3)] r(1) show ?thesis by simp
qed

lemma insertionSort_sort_key: "insertionSort f a = Inr (sort_key f a)"
proof -
  from insertionSort_correct [of f a] obtain a' where
    r: "insertionSort f a = Inr a'" "sorted (map f a')" "stable_rel f a' a" by blast
  from sorted_stable_eq_sort_key [OF r(2,3)] r(1) show ?thesis by simp
qed

lemma stable_rel_sort_key: "stable_rel f (sort_key f a) a"
  by (simp add: stable_rel_def sort_key_stable)

text \<open>
  When the elements are their own keys, as in the \<^verbatim>\<open>int[]\<close> of the source, a sorted
  permutation is unique, so selection sort and quick sort return \<open>sort a\<close> too.
\<close>

lemma selectionSort_sort: "selectionSort (\<lambda>x. x) a = Inr (sort a)"
proof -
  from selectionSort_correct [of "\<lambda>x. x" a] obtain a' where
    r: "selectionSort (\<lambda>x. x) a = Inr a'" "sorted (map (\<lambda>x. x) a')" "mset a' = mset a"
    by blast
  from r(2) have "sorted a'" by simp
  with r(3) have "sort a = a'" by (rule properties_for_sort)
  with r(1) show ?thesis by simp
qed

lemma quickSort_sort: "quickSort (\<lambda>x. x) a = Inr (sort a)"
proof -
  from quickSort_correct [of "\<lambda>x. x" a] obtain a' where
    r: "quickSort (\<lambda>x. x) a = Inr a'" "sorted (map (\<lambda>x. x) a')" "mset a' = mset a"
    by blast
  from r(2) have "sorted a'" by simp
  with r(3) have "sort a = a'" by (rule properties_for_sort)
  with r(1) show ?thesis by simp
qed

text \<open>
  The five routines run on the sample array of the demonstration driver, evaluated from
  the definitions alone.
\<close>

lemma sorts_run_sample:
  "bubbleSort (\<lambda>x. x) [5, 2, 9, 1, 5, 6 :: int] = Inr [1, 2, 5, 5, 6, 9]"
  "selectionSort (\<lambda>x. x) [5, 2, 9, 1, 5, 6 :: int] = Inr [1, 2, 5, 5, 6, 9]"
  "insertionSort (\<lambda>x. x) [5, 2, 9, 1, 5, 6 :: int] = Inr [1, 2, 5, 5, 6, 9]"
  "mergeSort (\<lambda>x. x) [5, 2, 9, 1, 5, 6 :: int] = Inr [1, 2, 5, 5, 6, 9]"
  "quickSort (\<lambda>x. x) [5, 2, 9, 1, 5, 6 :: int] = Inr [1, 2, 5, 5, 6, 9]"
  by code_simp+

text \<open>
  C6 (sorting correctness). For every key function \<open>f\<close> into a linear order and every
  array \<open>a\<close>, the empty and the one-element array included, each of \<open>bubbleSort\<close>,
  \<open>selectionSort\<close>, \<open>insertionSort\<close>, \<open>mergeSort\<close> and \<open>quickSort\<close> returns normally
  (no index leaves the array), and the array it leaves is a permutation of \<open>a\<close> whose keys
  are in non-decreasing order. The source is the instance where the elements are \<open>int\<close>
  and \<open>f\<close> is the identity.
\<close>

theorem sorts_correct:
  "(\<exists>a'. bubbleSort f a = Inr a' \<and> sorted (map f a') \<and> mset a' = mset a) \<and>
   (\<exists>a'. selectionSort f a = Inr a' \<and> sorted (map f a') \<and> mset a' = mset a) \<and>
   (\<exists>a'. insertionSort f a = Inr a' \<and> sorted (map f a') \<and> mset a' = mset a) \<and>
   (\<exists>a'. mergeSort f a = Inr a' \<and> sorted (map f a') \<and> mset a' = mset a) \<and>
   (\<exists>a'. quickSort f a = Inr a' \<and> sorted (map f a') \<and> mset a' = mset a)"
proof (intro conjI)
  show "\<exists>a'. bubbleSort f a = Inr a' \<and> sorted (map f a') \<and> mset a' = mset a"
    by (simp add: bubbleSort_sort_key)
  show "\<exists>a'. selectionSort f a = Inr a' \<and> sorted (map f a') \<and> mset a' = mset a"
    by (rule selectionSort_correct)
  show "\<exists>a'. insertionSort f a = Inr a' \<and> sorted (map f a') \<and> mset a' = mset a"
    by (simp add: insertionSort_sort_key)
  show "\<exists>a'. mergeSort f a = Inr a' \<and> sorted (map f a') \<and> mset a' = mset a"
    by (simp add: mergeSort_correct)
  show "\<exists>a'. quickSort f a = Inr a' \<and> sorted (map f a') \<and> mset a' = mset a"
    by (rule quickSort_correct)
qed

theorem sorts_correct_witness:
  "(\<exists>a'. bubbleSort (\<lambda>x. x) [5, 2, 9, 1, 5, 6 :: int] = Inr a' \<and> a' = [1, 2, 5, 5, 6, 9]) \<and>
   (\<exists>a'. selectionSort (\<lambda>x. x) [5, 2, 9, 1, 5, 6 :: int] = Inr a' \<and> a' = [1, 2, 5, 5, 6, 9]) \<and>
   (\<exists>a'. insertionSort (\<lambda>x. x) [5, 2, 9, 1, 5, 6 :: int] = Inr a' \<and> a' = [1, 2, 5, 5, 6, 9]) \<and>
   (\<exists>a'. mergeSort (\<lambda>x. x) [5, 2, 9, 1, 5, 6 :: int] = Inr a' \<and> a' = [1, 2, 5, 5, 6, 9]) \<and>
   (\<exists>a'. quickSort (\<lambda>x. x) [5, 2, 9, 1, 5, 6 :: int] = Inr a' \<and> a' = [1, 2, 5, 5, 6, 9]) \<and>
   (\<exists>a'. quickSort (\<lambda>x. x) ([] :: int list) = Inr a' \<and> a' = []) \<and>
   (\<exists>a'. bubbleSort (\<lambda>x. x) [7 :: int] = Inr a' \<and> a' = [7])"
proof -
  have u: "sorted (map (\<lambda>x. x) a') \<and> mset a' = mset xs \<longleftrightarrow> a' = sort xs"
    for a' xs :: "int list"
    using properties_for_sort [of a' xs] by auto
  have s: "sort [5, 2, 9, 1, 5, 6 :: int] = [1, 2, 5, 5, 6, 9]" by simp
  note c = sorts_correct [of "\<lambda>x. x" "[5, 2, 9, 1, 5, 6 :: int]", unfolded u s]
  note e = sorts_correct [of "\<lambda>x. x" "[] :: int list", unfolded u]
  note o = sorts_correct [of "\<lambda>x. x" "[7 :: int]", unfolded u]
  from c e o show ?thesis by simp
qed

text \<open>
  C7 (stability). For bubble sort, insertion sort and merge sort, and for every array and
  every key function, the elements of any one key appear in the output in the order they
  had in the input: filtering the output and the input on a key gives the same list.
  Nothing of the kind is stated for selection sort and quick sort.
\<close>

theorem sorts_stable:
  "(\<exists>a'. bubbleSort f a = Inr a' \<and> stable_rel f a' a) \<and>
   (\<exists>a'. insertionSort f a = Inr a' \<and> stable_rel f a' a) \<and>
   (\<exists>a'. mergeSort f a = Inr a' \<and> stable_rel f a' a)"
proof (intro conjI)
  from bubbleSort_correct [of f a]
  show "\<exists>a'. bubbleSort f a = Inr a' \<and> stable_rel f a' a" by blast
  from insertionSort_correct [of f a]
  show "\<exists>a'. insertionSort f a = Inr a' \<and> stable_rel f a' a" by blast
  have "stable_rel f (sort_key f a) a" by (rule stable_rel_sort_key)
  then show "\<exists>a'. mergeSort f a = Inr a' \<and> stable_rel f a' a"
    by (simp add: mergeSort_correct)
qed

theorem sorts_stable_witness:
  "(\<exists>a'. bubbleSort fst [(2, ''a''), (1, ''b''), (2, ''c''), (1, ''d'') :: int \<times> string] = Inr a' \<and>
      stable_rel fst a' [(2, ''a''), (1, ''b''), (2, ''c''), (1, ''d'')] \<and>
      filter (\<lambda>y. fst y = 2) a' = [(2, ''a''), (2, ''c'')]) \<and>
   (\<exists>a'. insertionSort fst [(2, ''a''), (1, ''b''), (2, ''c''), (1, ''d'') :: int \<times> string] = Inr a' \<and>
      stable_rel fst a' [(2, ''a''), (1, ''b''), (2, ''c''), (1, ''d'')] \<and>
      filter (\<lambda>y. fst y = 2) a' = [(2, ''a''), (2, ''c'')]) \<and>
   (\<exists>a'. mergeSort fst [(2, ''a''), (1, ''b''), (2, ''c''), (1, ''d'') :: int \<times> string] = Inr a' \<and>
      stable_rel fst a' [(2, ''a''), (1, ''b''), (2, ''c''), (1, ''d'')] \<and>
      filter (\<lambda>y. fst y = 2) a' = [(2, ''a''), (2, ''c'')])"
proof -
  let ?xs = "[(2, ''a''), (1, ''b''), (2, ''c''), (1, ''d'') :: int \<times> string]"
  have k: "stable_rel fst a' ?xs \<Longrightarrow> filter (\<lambda>y. fst y = 2) a' = [(2, ''a''), (2, ''c'')]" for a'
    by (simp add: stable_rel_def)
  from sorts_stable [of fst ?xs] show ?thesis by (auto dest: k)
qed

text \<open>
  The restriction to three algorithms is needed: selection sort and quick sort exchange
  elements over a distance, and on three elements with keys 2, 2, 1 both leave the two
  elements of key 2 in the opposite order.
\<close>

lemma selectionSort_reorders_equal_keys:
  "selectionSort fst [(2 :: int, ''a''), (2, ''b''), (1, ''c'')] =
     Inr [(1, ''c''), (2, ''b''), (2, ''a'')]"
  by code_simp

lemma quickSort_reorders_equal_keys:
  "quickSort fst [(2 :: int, ''a''), (2, ''b''), (1, ''c'')] =
     Inr [(1, ''c''), (2, ''b''), (2, ''a'')]"
  by code_simp

text \<open>
  C10 (the five sorts are extensionally equal). On every array of integers, sorted by
  their own value as in the source, the five routines return normally and leave the same
  array, namely \<open>sort a\<close>.
\<close>

theorem sorts_agree:
  "bubbleSort (\<lambda>x. x) a = Inr (sort a) \<and>
   selectionSort (\<lambda>x. x) a = Inr (sort a) \<and>
   insertionSort (\<lambda>x. x) a = Inr (sort a) \<and>
   mergeSort (\<lambda>x. x) a = Inr (sort a) \<and>
   quickSort (\<lambda>x. x) a = Inr (sort a)"
  for a :: "int list"
  by (simp add: bubbleSort_sort_key insertionSort_sort_key mergeSort_correct
      selectionSort_sort quickSort_sort)

theorem sorts_agree_witness:
  "bubbleSort (\<lambda>x. x) [3, 1, 2 :: int] = Inr [1, 2, 3] \<and>
   selectionSort (\<lambda>x. x) [3, 1, 2 :: int] = Inr [1, 2, 3] \<and>
   insertionSort (\<lambda>x. x) [3, 1, 2 :: int] = Inr [1, 2, 3] \<and>
   mergeSort (\<lambda>x. x) [3, 1, 2 :: int] = Inr [1, 2, 3] \<and>
   quickSort (\<lambda>x. x) [3, 1, 2 :: int] = Inr [1, 2, 3]"
  using sorts_agree [of "[3, 1, 2]"] by simp

section \<open>Searching: correctness\<close>

lemma linear_loop_found:
  assumes "i \<le> k" "k < length a" "a ! k = target" "\<forall>m. i \<le> m \<and> m < k \<longrightarrow> a ! m \<noteq> target"
  shows "linear_loop a target (int i) = Inr (int k)"
  using assms
proof (induction "k - i" arbitrary: i)
  case 0
  then have "i = k" by simp
  with 0 show ?case by (subst linear_loop.simps) simp
next
  case (Suc d)
  then have lt: "i < k" by simp
  with Suc.prems have ne: "a ! i \<noteq> target" by simp
  have ij: "int i + 1 = int (Suc i)" by simp
  have "linear_loop a target (int i) = linear_loop a target (int i + 1)"
    using lt Suc.prems(2) ne by (subst linear_loop.simps) simp
  also have "\<dots> = linear_loop a target (int (Suc i))" by (simp only: ij)
  also have "\<dots> = Inr (int k)"
    using Suc.hyps(2) Suc.prems lt by (intro Suc.hyps(1)) simp_all
  finally show ?case .
qed

lemma linear_loop_absent:
  assumes "\<forall>m. i \<le> m \<and> m < length a \<longrightarrow> a ! m \<noteq> target"
  shows "linear_loop a target (int i) = Inr (- 1)"
  using assms
proof (induction "length a - i" arbitrary: i)
  case 0
  then show ?case by (subst linear_loop.simps) simp
next
  case (Suc d)
  then have lt: "i < length a" by simp
  with Suc.prems have ne: "a ! i \<noteq> target" by simp
  have ij: "int i + 1 = int (Suc i)" by simp
  have "linear_loop a target (int i) = linear_loop a target (int i + 1)"
    using lt ne by (subst linear_loop.simps) simp
  also have "\<dots> = linear_loop a target (int (Suc i))" by (simp only: ij)
  also have "\<dots> = Inr (- 1)"
    using Suc.hyps(2) Suc.prems by (intro Suc.hyps(1)) simp_all
  finally show ?case .
qed

lemma binary_mid:
  assumes "left \<le> right"
  shows "left \<le> left + java_div (right - left) 2" "left + java_div (right - left) 2 \<le> right"
  using assms by (simp_all add: java_div_2)

lemma binary_loop_found:
  assumes "0 \<le> left" "right < int (length a)" "sorted a"
    "\<exists>m. left \<le> int m \<and> int m \<le> right \<and> a ! m = target"
  shows "\<exists>k. binary_loop a target left right = Inr (int k) \<and>
      left \<le> int k \<and> int k \<le> right \<and> a ! k = target"
  using assms
proof (induction a target left right rule: binary_loop.induct)
  case (1 a target left right)
  from "1.prems"(4) obtain m where m: "left \<le> int m" "int m \<le> right" "a ! m = target" by blast
  then have le: "left \<le> right" by simp
  define mid where "mid = left + java_div (right - left) 2"
  have mb: "left \<le> mid" "mid \<le> right" using binary_mid [OF le] by (simp_all add: mid_def)
  have rng: "0 \<le> mid \<and> mid < int (length a)" using mb "1.prems"(1,2) by simp
  define k where "k = nat mid"
  have k: "int k = mid" "k < length a" using rng by (simp_all add: k_def nat_less_iff)
  have ml: "m < length a" using m(2) "1.prems"(2) by simp
  show ?case
  proof (cases "a ! k = target")
    case True
    have "binary_loop a target left right = Inr mid"
      using le rng True by (subst binary_loop.simps) (simp add: mid_def [symmetric] k_def Let_def)
    with True mb k show ?thesis by (intro exI [of _ k]) simp
  next
    case False
    show ?thesis
    proof (cases "a ! k < target")
      case lt: True
      have "\<not> m \<le> k"
      proof
        assume "m \<le> k"
        then have "a ! m \<le> a ! k" using "1.prems"(3) k(2) by (simp add: sorted_nth_mono)
        with m(3) lt show False by simp
      qed
      then have "mid + 1 \<le> int m" using k(1) by simp
      with m have ex: "\<exists>m. mid + 1 \<le> int m \<and> int m \<le> right \<and> a ! m = target" by blast
      have unf: "binary_loop a target left right = binary_loop a target (mid + 1) right"
        using le rng False lt
        by (subst binary_loop.simps) (simp add: mid_def [symmetric] k_def Let_def)
      have p1: "0 \<le> mid + 1" using rng by simp
      have nk: "a ! nat mid \<noteq> target" "a ! nat mid < target" using False lt by (simp_all add: k_def)
      from "1.IH"(1) [OF le mid_def rng nk(1) nk(2) p1 "1.prems"(2,3) ex]
      obtain k' where "binary_loop a target (mid + 1) right = Inr (int k')"
        "mid + 1 \<le> int k'" "int k' \<le> right" "a ! k' = target" by blast
      with unf mb show ?thesis by (intro exI [of _ k']) simp
    next
      case gt: False
      have "\<not> k \<le> m"
      proof
        assume "k \<le> m"
        then have "a ! k \<le> a ! m" using "1.prems"(3) ml by (simp add: sorted_nth_mono)
        with m(3) gt False show False by simp
      qed
      then have "int m \<le> mid - 1" using k(1) by simp
      with m have ex: "\<exists>m. left \<le> int m \<and> int m \<le> mid - 1 \<and> a ! m = target" by blast
      have unf: "binary_loop a target left right = binary_loop a target left (mid - 1)"
        using le rng False gt
        by (subst binary_loop.simps) (simp add: mid_def [symmetric] k_def Let_def)
      have p2: "mid - 1 < int (length a)" using rng by simp
      have nk: "a ! nat mid \<noteq> target" "\<not> a ! nat mid < target" using False gt by (simp_all add: k_def)
      from "1.IH"(2) [OF le mid_def rng nk(1) nk(2) "1.prems"(1) p2 "1.prems"(3) ex]
      obtain k' where "binary_loop a target left (mid - 1) = Inr (int k')"
        "left \<le> int k'" "int k' \<le> mid - 1" "a ! k' = target" by blast
      with unf mb show ?thesis by (intro exI [of _ k']) simp
    qed
  qed
qed

lemma binary_loop_absent:
  assumes "0 \<le> left" "right < int (length a)"
    "\<forall>m. left \<le> int m \<and> int m \<le> right \<longrightarrow> a ! m \<noteq> target"
  shows "binary_loop a target left right = Inr (- 1)"
  using assms
proof (induction a target left right rule: binary_loop.induct)
  case (1 a target left right)
  show ?case
  proof (cases "left \<le> right")
    case False
    then show ?thesis by (subst binary_loop.simps) simp
  next
    case le: True
    define mid where "mid = left + java_div (right - left) 2"
    have mb: "left \<le> mid" "mid \<le> right" using binary_mid [OF le] by (simp_all add: mid_def)
    have rng: "0 \<le> mid \<and> mid < int (length a)" using mb "1.prems"(1,2) by simp
    have "left \<le> int (nat mid) \<and> int (nat mid) \<le> right" using mb rng by simp
    with "1.prems"(3) have ne: "a ! nat mid \<noteq> target" by blast
    show ?thesis
    proof (cases "a ! nat mid < target")
      case lt: True
      have unf: "binary_loop a target left right = binary_loop a target (mid + 1) right"
        using le rng ne lt
        by (subst binary_loop.simps) (simp add: mid_def [symmetric] Let_def)
      have p1: "0 \<le> mid + 1" using rng by simp
      have ab: "\<forall>m. mid + 1 \<le> int m \<and> int m \<le> right \<longrightarrow> a ! m \<noteq> target"
        using "1.prems"(3) mb by auto
      from "1.IH"(1) [OF le mid_def rng ne lt p1 "1.prems"(2) ab] unf
      show ?thesis by simp
    next
      case gt: False
      have unf: "binary_loop a target left right = binary_loop a target left (mid - 1)"
        using le rng ne gt
        by (subst binary_loop.simps) (simp add: mid_def [symmetric] Let_def)
      have p2: "mid - 1 < int (length a)" using rng by simp
      have ab: "\<forall>m. left \<le> int m \<and> int m \<le> mid - 1 \<longrightarrow> a ! m \<noteq> target"
        using "1.prems"(3) mb by auto
      from "1.IH"(2) [OF le mid_def rng ne gt "1.prems"(1) p2 ab] unf
      show ?thesis by simp
    qed
  qed
qed

subsection \<open>The searching claim\<close>

lemma first_occurrence:
  assumes "target \<in> set a"
  shows "\<exists>i. i < length a \<and> a ! i = target \<and> (\<forall>m. m < i \<longrightarrow> a ! m \<noteq> target)"
proof -
  from assms obtain n where n: "n < length a \<and> a ! n = target"
    by (auto simp: in_set_conv_nth)
  define i where "i = (LEAST n. n < length a \<and> a ! n = target)"
  from n have p: "i < length a \<and> a ! i = target"
    unfolding i_def by (rule LeastI)
  have "a ! m \<noteq> target" if "m < i" for m
  proof
    assume "a ! m = target"
    with that p have "m < length a \<and> a ! m = target" by simp
    then have "i \<le> m" unfolding i_def by (rule Least_le)
    with that show False by simp
  qed
  with p show ?thesis by blast
qed

lemma two_occurrences:
  assumes "i < j" "j < length a" "a ! i = x" "a ! j = x"
  shows "2 \<le> count_list a x"
proof -
  have a: "a = take j a @ a ! j # drop (Suc j) a"
    using assms(2) by (rule id_take_nth_drop)
  have "take j a ! i = x" using assms(1,3) by simp
  moreover have "i < length (take j a)" using assms(1,2) by simp
  ultimately have "x \<in> set (take j a)" by (metis nth_mem)
  then have "count_list (take j a) x \<noteq> 0" by (simp only: count_list_0_iff not_not)
  then have "0 < count_list (take j a) x" by simp
  moreover have "count_list a x = count_list (take j a) x + count_list (a ! j # drop (Suc j) a) x"
    by (subst a) (simp only: count_list_append)
  ultimately show ?thesis using assms(4) by simp
qed

lemma linearSearch_first:
  assumes "i < length a" "a ! i = target" "\<forall>m. m < i \<longrightarrow> a ! m \<noteq> target"
  shows "linearSearch a target = Inr (int i)"
proof -
  have "linear_loop a target (int 0) = Inr (int i)"
    using assms by (intro linear_loop_found) simp_all
  then show ?thesis by (simp add: linearSearch_def)
qed

lemma linearSearch_absent:
  assumes "target \<notin> set a"
  shows "linearSearch a target = Inr (- 1)"
proof -
  have "linear_loop a target (int 0) = Inr (- 1)"
    using assms by (intro linear_loop_absent) (auto simp: in_set_conv_nth)
  then show ?thesis by (simp add: linearSearch_def)
qed

lemma binarySearch_found:
  assumes "sorted a" "target \<in> set a"
  shows "\<exists>j. binarySearch a target = Inr (int j) \<and> j < length a \<and> a ! j = target"
proof -
  from assms(2) obtain m where m: "m < length a" "a ! m = target"
    by (auto simp: in_set_conv_nth)
  then have ex: "\<exists>m. 0 \<le> int m \<and> int m \<le> int (length a) - 1 \<and> a ! m = target"
    by (intro exI [of _ m]) simp
  have "\<exists>k. binary_loop a target 0 (int (length a) - 1) = Inr (int k) \<and>
      0 \<le> int k \<and> int k \<le> int (length a) - 1 \<and> a ! k = target"
    using assms(1) ex by (intro binary_loop_found) simp_all
  then obtain k where k: "binary_loop a target 0 (int (length a) - 1) = Inr (int k)"
    "int k \<le> int (length a) - 1" "a ! k = target" by blast
  from k(2) m(1) have "k < length a" by simp
  with k(1,3) show ?thesis unfolding binarySearch_def by blast
qed

lemma binarySearch_absent:
  assumes "target \<notin> set a"
  shows "binarySearch a target = Inr (- 1)"
  unfolding binarySearch_def using assms
  by (intro binary_loop_absent) (auto simp: in_set_conv_nth)

text \<open>
  C8 (the two searches), as the code has it. On an array sorted in ascending order that
  contains the target, \<open>linearSearch\<close> returns the index \<open>i\<close> of the first occurrence and
  \<open>binarySearch\<close> returns an index \<open>j\<close> that also holds the target, with \<open>i \<le> j\<close>; the
  two indices are equal when the target occurs exactly once. When the target is absent
  both return \<open>-1\<close>. On \<open>[2, 4, 6, 8, 10]\<close>, \<open>binarySearch\<close> returns index 2 for target 6
  and \<open>-1\<close> for target 5.
\<close>

theorem search_agreement:
  "(sorted a \<and> target \<in> set a \<longrightarrow>
      (\<exists>i j. linearSearch a target = Inr (int i) \<and> binarySearch a target = Inr (int j) \<and>
         i < length a \<and> a ! i = target \<and> (\<forall>m. m < i \<longrightarrow> a ! m \<noteq> target) \<and>
         j < length a \<and> a ! j = target \<and> i \<le> j \<and>
         (count_list a target = 1 \<longrightarrow> i = j))) \<and>
   (target \<notin> set a \<longrightarrow> linearSearch a target = Inr (- 1) \<and> binarySearch a target = Inr (- 1)) \<and>
   binarySearch [2, 4, 6, 8, 10] 6 = Inr 2 \<and>
   binarySearch [2, 4, 6, 8, 10] 5 = Inr (- 1)"
proof (intro conjI impI)
  assume h: "sorted a \<and> target \<in> set a"
  from first_occurrence [of target a] h obtain i where
    i: "i < length a" "a ! i = target" "\<forall>m. m < i \<longrightarrow> a ! m \<noteq> target" by blast
  from binarySearch_found [of a target] h obtain j where
    j: "binarySearch a target = Inr (int j)" "j < length a" "a ! j = target" by blast
  have l: "linearSearch a target = Inr (int i)" using i by (rule linearSearch_first)
  have le: "i \<le> j"
  proof (rule ccontr)
    assume "\<not> i \<le> j"
    then have "j < i" by simp
    with i(3) j(3) show False by blast
  qed
  have one: "i = j" if c: "count_list a target = 1"
  proof (rule ccontr)
    assume "i \<noteq> j"
    with le have "i < j" by simp
    from two_occurrences [OF this j(2) i(2) j(3)] c show False by simp
  qed
  from l j i le one
  have "linearSearch a target = Inr (int i) \<and> binarySearch a target = Inr (int j) \<and>
         i < length a \<and> a ! i = target \<and> (\<forall>m. m < i \<longrightarrow> a ! m \<noteq> target) \<and>
         j < length a \<and> a ! j = target \<and> i \<le> j \<and>
         (count_list a target = 1 \<longrightarrow> i = j)" by simp
  then show "\<exists>i j. linearSearch a target = Inr (int i) \<and> binarySearch a target = Inr (int j) \<and>
         i < length a \<and> a ! i = target \<and> (\<forall>m. m < i \<longrightarrow> a ! m \<noteq> target) \<and>
         j < length a \<and> a ! j = target \<and> i \<le> j \<and>
         (count_list a target = 1 \<longrightarrow> i = j)" by blast
next
  assume "target \<notin> set a"
  then show "linearSearch a target = Inr (- 1)" by (rule linearSearch_absent)
next
  assume "target \<notin> set a"
  then show "binarySearch a target = Inr (- 1)" by (rule binarySearch_absent)
next
  show "binarySearch [2, 4, 6, 8, 10] 6 = Inr 2"
    by (simp add: binarySearch_def binary_loop.simps java_div_def)
next
  show "binarySearch [2, 4, 6, 8, 10] 5 = Inr (- 1)"
    by (simp add: binarySearch_def binary_loop.simps java_div_def)
qed

theorem search_agreement_witness:
  "sorted [2, 4, 6, 8, 10 :: int] \<and> (6 :: int) \<in> set [2, 4, 6, 8, 10] \<and>
   count_list [2, 4, 6, 8, 10] (6 :: int) = 1 \<and>
   (\<exists>i. linearSearch [2, 4, 6, 8, 10] 6 = Inr (int i) \<and>
        binarySearch [2, 4, 6, 8, 10] 6 = Inr (int i) \<and> [2, 4, 6, 8, 10 :: int] ! i = 6) \<and>
   (5 :: int) \<notin> set [2, 4, 6, 8, 10] \<and>
   linearSearch [2, 4, 6, 8, 10] 5 = Inr (- 1) \<and> binarySearch [2, 4, 6, 8, 10] 5 = Inr (- 1)"
proof -
  have h: "sorted [2, 4, 6, 8, 10 :: int] \<and> (6 :: int) \<in> set [2, 4, 6, 8, 10]" by simp
  have c: "count_list [2, 4, 6, 8, 10] (6 :: int) = 1" by simp
  have n: "(5 :: int) \<notin> set [2, 4, 6, 8, 10]" by simp
  from search_agreement [of "[2, 4, 6, 8, 10]" 6, THEN conjunct1, rule_format, OF h]
  obtain i j where ij: "linearSearch [2, 4, 6, 8, 10] 6 = Inr (int i)"
    "binarySearch [2, 4, 6, 8, 10] 6 = Inr (int j)" "[2, 4, 6, 8, 10 :: int] ! i = 6"
    "count_list [2, 4, 6, 8, 10] (6 :: int) = 1 \<longrightarrow> i = j" by blast
  from ij(4) c have "i = j" by (rule mp)
  with ij have e: "\<exists>i. linearSearch [2, 4, 6, 8, 10] 6 = Inr (int i) \<and>
        binarySearch [2, 4, 6, 8, 10] 6 = Inr (int i) \<and> [2, 4, 6, 8, 10 :: int] ! i = 6"
    by blast
  note a = search_agreement [of "[2, 4, 6, 8, 10]" 5, THEN conjunct2, THEN conjunct1,
      rule_format, OF n]
  from h c e n a show ?thesis by (elim conjE) (intro conjI; assumption)
qed

text \<open>
  The claim as the specification words it, that the two searches return the same index on
  every sorted array containing the target, fails when the target occurs more than once:
  on \<open>[1, 1, 1]\<close> with target 1, \<open>linearSearch\<close> stops at index 0 and \<open>binarySearch\<close> at
  the first midpoint, index 1.
\<close>

theorem search_agreement_counterexample:
  "sorted [1, 1, 1 :: int] \<and> (1 :: int) \<in> set [1, 1, 1] \<and>
   linearSearch [1, 1, 1] 1 = Inr 0 \<and> binarySearch [1, 1, 1] 1 = Inr 1 \<and>
   linearSearch [1, 1, 1] 1 \<noteq> binarySearch [1, 1, 1] 1"
  by (simp add: linearSearch_def linear_loop.simps binarySearch_def binary_loop.simps java_div_def)

end
